theory Spec2Isabelle
  imports
    Main
    "HOL-Library.Word"
    "HOL-Library.Sublist"
    "HOL-Library.Char_ord"
    "HOL-Library.List_Lexorder"
    "HOL-Library.AList"
begin

section \<open>The clone detector's driver (main.go)\<close>

text \<open>
  The driver wires four external packages (job, suffixtree, syntax, printer) into a
  pipeline. Channels are modelled as the lists of values sent over them, goroutines as
  the functions computing those lists, Go maps as association lists or key lists whose
  iteration order is supplied by an explicit order function, and a panic or a call of
  \<^verbatim>\<open>log.Fatal\<close> as a value of the result.
\<close>

subsection \<open>Data\<close>

text \<open>
  Modelled from the spec: the declaration of \<^verbatim>\<open>syntax.Node\<close> is not part of main.go,
  which only reads \<^verbatim>\<open>Type\<close>, \<^verbatim>\<open>Filename\<close> and \<^verbatim>\<open>Pos\<close>; the remaining fields are those
  of the data model (end offset and number of owned nodes). The driver does no arithmetic
  on any of them.
\<close>

record Node =
  Type :: int
  Filename :: string
  Pos :: int
  End :: int
  Owns :: int

text \<open>
  Modelled from the spec: \<^verbatim>\<open>syntax.Match\<close>, of which main.go reads \<^verbatim>\<open>Hash\<close> and
  \<^verbatim>\<open>Frags\<close>. A fragment is a slice of node pointers; the driver never writes through
  them, so a fragment is a list of nodes.
\<close>

record Match =
  Hash :: string
  Frags :: "Node list list"

type_synonym error = string

datatype panic = IndexOutOfRange | NilDereference

subsection \<open>unique\<close>

text \<open>
  \<^verbatim>\<open>fileMap\<close> is a \<^verbatim>\<open>map[string]map[int]struct{}\<close>. The inner map is shared by
  reference, so \<^verbatim>\<open>file[node.Pos] = struct{}{}\<close> updates the entry of \<^verbatim>\<open>fileMap\<close>.
  \<^verbatim>\<open>seq[0]\<close> panics on an empty fragment.
\<close>

fun unique_loop ::
  "Node list list \<Rightarrow> (string \<rightharpoonup> int set) \<Rightarrow> Node list list \<Rightarrow> panic + Node list list" where
  "unique_loop [] fileMap newGroup = Inr newGroup"
| "unique_loop (seq # rest) fileMap newGroup =
     (case seq of
        [] \<Rightarrow> Inl IndexOutOfRange
      | node # _ \<Rightarrow>
          (let (file, fileMap1) =
                 (case fileMap (Filename node) of
                    Some f \<Rightarrow> (f, fileMap)
                  | None \<Rightarrow> ({}, fileMap(Filename node \<mapsto> {})))
           in if Pos node \<notin> file
              then unique_loop rest (fileMap1(Filename node \<mapsto> insert (Pos node) file))
                     (newGroup @ [seq])
              else unique_loop rest fileMap1 newGroup))"

definition unique :: "Node list list \<Rightarrow> panic + Node list list" where
  "unique grp = unique_loop grp Map.empty []"

subsection \<open>printDupls\<close>

text \<open>
  The printer is an interface value of the absent package printer. Its three methods are
  the calls below; whether a call returns an error may depend on the calls made before,
  so a printer is a function from the calls so far and the present call to the error.
\<close>

datatype pcall = PrintHeader | PrintClones "Node list list" | PrintFooter

type_synonym printer = "pcall list \<Rightarrow> pcall \<Rightarrow> error option"

text \<open>
  \<^verbatim>\<open>groups\<close> is a \<^verbatim>\<open>map[string][][]*syntax.Node\<close>, here an association list. Indexing
  a Go map at a missing key gives the zero value, the nil slice.
\<close>

type_synonym groups = "(string \<times> Node list list) list"

definition group_at :: "groups \<Rightarrow> string \<Rightarrow> Node list list" where
  "group_at groups k = (case map_of groups k of None \<Rightarrow> [] | Some g \<Rightarrow> g)"

definition add_dupl :: "groups \<Rightarrow> Match \<Rightarrow> groups" where
  "add_dupl groups dupl =
     AList.update (Hash dupl) (group_at groups (Hash dupl) @ Frags dupl) groups"

definition collect_groups :: "Match list list \<Rightarrow> groups" where
  "collect_groups duplChans = foldl add_dupl [] (concat duplChans)"

text \<open>
  \<^verbatim>\<open>for k := range groups\<close> visits the keys in an order the runtime chooses; the
  order is the function \<open>ko\<close> applied to the keys. \<^verbatim>\<open>sort.Strings\<close> sorts by the
  byte-wise lexicographic order of Go strings.
\<close>

definition group_keys :: "(string list \<Rightarrow> string list) \<Rightarrow> groups \<Rightarrow> string list" where
  "group_keys ko groups = sort (ko (map fst groups))"

definition is_key_order :: "(string list \<Rightarrow> string list) \<Rightarrow> bool" where
  "is_key_order ko \<longleftrightarrow> (\<forall>ks. distinct ks \<longrightarrow> distinct (ko ks) \<and> set (ko ks) = set ks)"

text \<open>
  The result of printDupls is the list of calls it made on the printer, and either the
  panic of \<^verbatim>\<open>unique\<close> or the error it returned (\<open>None\<close> for nil).
\<close>

fun print_groups ::
  "printer \<Rightarrow> groups \<Rightarrow> string list \<Rightarrow> pcall list \<Rightarrow> pcall list \<times> (panic + error option)" where
  "print_groups p groups [] calls = (calls @ [PrintFooter], Inr (p calls PrintFooter))"
| "print_groups p groups (k # keys) calls =
     (case unique (group_at groups k) of
        Inl pan \<Rightarrow> (calls, Inl pan)
      | Inr uniq \<Rightarrow>
          if length uniq > 1
          then (case p calls (PrintClones uniq) of
                  Some err \<Rightarrow> (calls @ [PrintClones uniq], Inr (Some err))
                | None \<Rightarrow> print_groups p groups keys (calls @ [PrintClones uniq]))
          else print_groups p groups keys calls)"

definition print_collected ::
  "(string list \<Rightarrow> string list) \<Rightarrow> printer \<Rightarrow> groups \<Rightarrow> pcall list \<times> (panic + error option)" where
  "print_collected ko p groups =
     (let keys = group_keys ko groups
      in case p [] PrintHeader of
           Some err \<Rightarrow> ([PrintHeader], Inr (Some err))
         | None \<Rightarrow> print_groups p groups keys [PrintHeader])"

definition printDupls ::
  "(string list \<Rightarrow> string list) \<Rightarrow> printer \<Rightarrow> Match list list \<Rightarrow>
     pcall list \<times> (panic + error option)" where
  "printDupls ko p duplChans = print_collected ko p (collect_groups duplChans)"

text \<open>
  The pair \<^verbatim>\<open>(node.Filename, node.Pos)\<close> that \<^verbatim>\<open>unique\<close> reads from the first node of
  a fragment (on a fragment with a first node), and the pairs \<^verbatim>\<open>fileMap\<close> holds.
\<close>

definition frag_key :: "Node list \<Rightarrow> string \<times> int" where
  "frag_key seq = (Filename (hd seq), Pos (hd seq))"

definition seen_of :: "(string \<rightharpoonup> int set) \<Rightarrow> (string \<times> int) set" where
  "seen_of fileMap = {(fn, pos). \<exists>f. fileMap fn = Some f \<and> pos \<in> f}"

text \<open>
  The deduplication as the specification words it: going through the group in order, a
  fragment is kept unless an earlier one had the same file name and starting position.
  It is compared with \<^verbatim>\<open>unique\<close> below.
\<close>

fun keep_first :: "(string \<times> int) set \<Rightarrow> Node list list \<Rightarrow> Node list list" where
  "keep_first seen [] = []"
| "keep_first seen (seq # rest) =
     (if frag_key seq \<in> seen then keep_first seen rest
      else seq # keep_first (insert (frag_key seq) seen) rest)"

text \<open>
  The output as the specification words it: the groups are gone through by ascending
  hash; the group of a hash is the fragments of the matches with this hash, in the order
  received; it is deduplicated and printed when two fragments or more are left.
  \<open>printed\<close> reads the groups handed to \<^verbatim>\<open>PrintClones\<close> off the calls, in order.
\<close>

definition sorted_hashes :: "Match list list \<Rightarrow> string list" where
  "sorted_hashes duplChans = sort (remdups (map Hash (concat duplChans)))"

definition group_of :: "Match list list \<Rightarrow> string \<Rightarrow> Node list list" where
  "group_of duplChans k = concat (map Frags (filter (\<lambda>dupl. Hash dupl = k) (concat duplChans)))"

definition groups_in_key_order :: "Match list list \<Rightarrow> Node list list list" where
  "groups_in_key_order duplChans =
     filter (\<lambda>uniq. 1 < length uniq)
       (map (\<lambda>k. keep_first {} (group_of duplChans k)) (sorted_hashes duplChans))"

fun printed :: "pcall list \<Rightarrow> Node list list list" where
  "printed [] = []"
| "printed (PrintClones uniq # calls) = uniq # printed calls"
| "printed (c # calls) = printed calls"

subsection \<open>findDuplicates\<close>

text \<open>
  \<^verbatim>\<open>pathMap\<close> is a \<^verbatim>\<open>map[string]struct{}\<close>, here the list of its keys.
  \<^verbatim>\<open>for parentPath := range pathMap\<close> visits the keys in an order the runtime chooses,
  the list \<open>order\<close>: the first key visited that is a prefix of the file name is deleted and
  the loop is left by \<^verbatim>\<open>break\<close>.
\<close>

fun range_pathMap :: "string list \<Rightarrow> string \<Rightarrow> string list \<Rightarrow> string list" where
  "range_pathMap [] filename pathMap = pathMap"
| "range_pathMap (parentPath # order) filename pathMap =
     (if prefix parentPath filename then removeAll parentPath pathMap
      else range_pathMap order filename pathMap)"

text \<open>
  The order of one execution of the range statement is given by a function of the keys;
  each execution has its own function, found by the index of the fragment and of the
  node within the fragment. An order visits every key and nothing else; visiting a key
  twice would not change what the loop does.
\<close>

type_synonym range_order = "nat \<Rightarrow> nat \<Rightarrow> string list \<Rightarrow> string list"

definition is_range_order :: "range_order \<Rightarrow> bool" where
  "is_range_order ro \<longleftrightarrow> (\<forall>i j keys. set (ro i j keys) = set keys)"

text \<open>The order in which the keys were inserted, one of the possible orders.\<close>

definition in_key_order :: range_order where
  "in_key_order i j keys = keys"

text \<open>The reverse of it, another possible order.\<close>

definition rev_key_order :: range_order where
  "rev_key_order i j keys = rev keys"

fun nodes_loop ::
  "(nat \<Rightarrow> string list \<Rightarrow> string list) \<Rightarrow> nat \<Rightarrow> Node list \<Rightarrow> string list \<Rightarrow> string list" where
  "nodes_loop ro j [] pathMap = pathMap"
| "nodes_loop ro j (node # nodes) pathMap =
     nodes_loop ro (Suc j) nodes (range_pathMap (ro j pathMap) (Filename node) pathMap)"

fun frags_loop :: "range_order \<Rightarrow> nat \<Rightarrow> Node list list \<Rightarrow> string list \<Rightarrow> string list" where
  "frags_loop ro i [] pathMap = pathMap"
| "frags_loop ro i (frag # frags) pathMap =
     (if length pathMap \<noteq> 0
      then frags_loop ro (Suc i) frags (nodes_loop (ro i) 0 frag pathMap)
      else pathMap)"

text \<open>
  \<^verbatim>\<open>pathMap\<close> starts with the root paths as keys; the closure is true when it
  has been emptied.
\<close>

definition matchesFiles :: "range_order \<Rightarrow> string list \<Rightarrow> Match \<Rightarrow> bool" where
  "matchesFiles ro paths match \<longleftrightarrow>
     length (frags_loop ro 0 (Frags match) (fold List.insert paths [])) = 0"

text \<open>The test under which \<^verbatim>\<open>findDuplicates\<close> sends a match to \<^verbatim>\<open>duplChan\<close>.\<close>

definition emits :: "range_order \<Rightarrow> string list \<Rightarrow> Match \<Rightarrow> bool" where
  "emits ro paths match \<longleftrightarrow> length (Frags match) > 0 \<and> matchesFiles ro paths match"

text \<open>
  Go's \<^verbatim>\<open>int\<close> is 64 bits wide on the platforms the tool is built for; it is read as a
  signed number and \<^verbatim>\<open>i -= 1\<close> wraps around.
\<close>

type_synonym goint = "64 word"

text \<open>
  \<^verbatim>\<open>syntax.FindSyntaxUnits\<close> and the type of the raw matches of the suffix tree belong to
  absent packages: the function is a parameter, the type a type variable. \<open>mchan\<close> is the
  list of raw matches received, \<open>k\<close> the number of those already handled, the result the
  list of matches sent to \<^verbatim>\<open>duplChan\<close>.
\<close>

fun findDuplicates ::
  "(nat \<Rightarrow> range_order) \<Rightarrow> (Node list \<Rightarrow> 'm \<Rightarrow> goint \<Rightarrow> Match) \<Rightarrow> string list \<Rightarrow>
     Node list \<Rightarrow> goint \<Rightarrow> nat \<Rightarrow> 'm list \<Rightarrow> Match list" where
  "findDuplicates ro FindSyntaxUnits paths data threshold k [] = []"
| "findDuplicates ro FindSyntaxUnits paths data threshold k (m # mchan) =
     (let match = FindSyntaxUnits data m threshold
      in (if emits (ro k) paths match then [match] else []) @
         findDuplicates ro FindSyntaxUnits paths data threshold (Suc k) mchan)"

text \<open>
  The path filter as the specification words it: every root path is a prefix of the file
  name of a node of a fragment of the match.
\<close>

definition covers :: "string list \<Rightarrow> Match \<Rightarrow> bool" where
  "covers paths match \<longleftrightarrow>
     (\<forall>root \<in> set paths. \<exists>frag \<in> set (Frags match). \<exists>node \<in> set frag.
        prefix root (Filename node))"

text \<open>Roots of which none is a prefix of another.\<close>

definition unnested :: "string set \<Rightarrow> bool" where
  "unnested S \<longleftrightarrow> (\<forall>p \<in> S. \<forall>q \<in> S. prefix p q \<longrightarrow> p = q)"

subsection \<open>Flags\<close>

record config =
  vendor :: bool
  verbose :: bool
  fromThreshold :: goint
  toThreshold :: goint
  files :: bool
  html :: bool
  plumbing :: bool
  args :: "string list"

text \<open>
  \<^verbatim>\<open>paths\<close> starts as \<^verbatim>\<open>[]string{"."}\<close> and is replaced by the arguments when there
  are any.
\<close>

definition cli_paths :: "string list \<Rightarrow> string list" where
  "cli_paths as = (if length as > 0 then as else [''.''])"

text \<open>The flags as they are declared: their values when the command line sets none.\<close>

definition defaultThreshold :: goint where
  "defaultThreshold = 15"

definition default_flags :: config where
  "default_flags =
     \<lparr>vendor = False, verbose = False, fromThreshold = defaultThreshold,
      toThreshold = defaultThreshold, files = False, html = False, plumbing = False,
      args = []\<rparr>"

text \<open>The least value of an \<^verbatim>\<open>int\<close>.\<close>

definition MinInt :: goint where
  "MinInt = - (2 ^ 63)"

subsection \<open>crawlPaths and filesFeed\<close>

definition Separator :: char where
  "Separator = CHR ''/''"

definition vendorDirPrefix :: string where
  "vendorDirPrefix = ''vendor'' @ [Separator]"

definition vendorDirInPath :: string where
  "vendorDirInPath = [Separator] @ vendorDirPrefix"

record FileInfo =
  Name :: string
  IsDir :: bool

text \<open>
  The file system is a parameter. \<open>Lstat\<close> is \<^verbatim>\<open>os.Lstat\<close>. \<open>Walk\<close> gives, for a root,
  the calls \<^verbatim>\<open>filepath.Walk\<close> makes to a callback that returns nil every time, as the one of
  \<^verbatim>\<open>crawlPaths\<close> does, and the error \<^verbatim>\<open>filepath.Walk\<close> returns. A call carries the path,
  the file information (nil when it could not be read) and the error met on the way.
\<close>

record fsys =
  Lstat :: "string \<Rightarrow> error + FileInfo"
  Walk :: "string \<Rightarrow> (string \<times> FileInfo option \<times> error option) list \<times> error option"

text \<open>
  The callback: its value is the list of names it sends on \<^verbatim>\<open>fchan\<close> (none or one), or
  the panic of calling a method of a nil \<^verbatim>\<open>info\<close>.
\<close>

definition walkFn ::
  "config \<Rightarrow> string \<Rightarrow> FileInfo option \<Rightarrow> error option \<Rightarrow> panic + string list" where
  "walkFn cfg path info err =
     (if \<not> vendor cfg \<and> (prefix vendorDirPrefix path \<or> sublist vendorDirInPath path)
      then Inr []
      else (case info of
              None \<Rightarrow> Inl NilDereference
            | Some i \<Rightarrow> if \<not> IsDir i \<and> suffix ''.go'' (Name i) then Inr [path] else Inr []))"

fun walk_calls ::
  "config \<Rightarrow> (string \<times> FileInfo option \<times> error option) list \<Rightarrow> string list \<times> panic option" where
  "walk_calls cfg [] = ([], None)"
| "walk_calls cfg ((path, info, err) # calls) =
     (case walkFn cfg path info err of
        Inl pan \<Rightarrow> ([], Some pan)
      | Inr sent \<Rightarrow> (let (more, r) = walk_calls cfg calls in (sent @ more, r)))"

text \<open>
  How the feeding goroutine ends: it closes the channel, or \<^verbatim>\<open>log.Fatal\<close> ends the
  program, or it panics.
\<close>

datatype feed_end = Closed | LogFatal error | Panicked panic

text \<open>The names sent on \<^verbatim>\<open>fchan\<close>, in order, and the end of the goroutine.\<close>

fun crawlPaths :: "fsys \<Rightarrow> config \<Rightarrow> string list \<Rightarrow> string list \<times> feed_end" where
  "crawlPaths fs cfg [] = ([], Closed)"
| "crawlPaths fs cfg (path # paths) =
     (case Lstat fs path of
        Inl err \<Rightarrow> ([], LogFatal err)
      | Inr info \<Rightarrow>
          if \<not> IsDir info
          then (let (more, r) = crawlPaths fs cfg paths in (path # more, r))
          else (case walk_calls cfg (fst (Walk fs path)) of
                  (sent, Some pan) \<Rightarrow> (sent, Panicked pan)
                | (sent, None) \<Rightarrow>
                    (case snd (Walk fs path) of
                       Some err \<Rightarrow> (sent, LogFatal err)
                     | None \<Rightarrow>
                         (let (more, r) = crawlPaths fs cfg paths in (sent @ more, r)))))"

definition TrimPrefix :: "string \<Rightarrow> string \<Rightarrow> string" where
  "TrimPrefix s p = (if prefix p s then drop (length p) s else s)"

text \<open>\<open>stdin\<close> is the list of lines the scanner reads from the standard input.\<close>

definition filesFeed :: "fsys \<Rightarrow> string list \<Rightarrow> config \<Rightarrow> string list \<Rightarrow> string list \<times> feed_end" where
  "filesFeed fs stdin cfg paths =
     (if files cfg then (map (\<lambda>f. TrimPrefix f ''./'') stdin, Closed)
      else crawlPaths fs cfg paths)"

subsection \<open>main\<close>

definition sentinel :: Node where
  "sentinel = \<lparr>Type = - 1, Filename = [], Pos = 0, End = 0, Owns = 0\<rparr>"

datatype printer_kind = Text | HTML | Plumbing

definition newPrinter :: "config \<Rightarrow> printer_kind" where
  "newPrinter cfg = (if html cfg then HTML else if plumbing cfg then Plumbing else Text)"

text \<open>
  What the driver takes from outside: the file system and the standard input, the absent
  packages job (\<open>Parse\<close> from the names fed to the node sequences, \<open>BuildTree\<close> from these to
  the tree and the data), suffixtree (\<open>Update\<close>, \<open>FindDuplOver\<close>), syntax
  (\<open>FindSyntaxUnits\<close>) and printer (\<open>NewPrinter\<close>), and the orders in which the runtime
  iterates over maps.
\<close>

record ('t, 'm) env =
  FS :: fsys
  Stdin :: "string list"
  Parse :: "string list \<Rightarrow> Node list list"
  BuildTree :: "Node list list \<Rightarrow> 't \<times> Node list"
  Update :: "'t \<Rightarrow> Node \<Rightarrow> 't"
  FindDuplOver :: "'t \<Rightarrow> goint \<Rightarrow> 'm list"
  FindSyntaxUnits :: "Node list \<Rightarrow> 'm \<Rightarrow> goint \<Rightarrow> Match"
  NewPrinter :: "printer_kind \<Rightarrow> printer"
  RangeOrder :: "goint \<Rightarrow> nat \<Rightarrow> range_order"
  KeyOrder :: "string list \<Rightarrow> string list"

text \<open>
  What a run does, in order: the names handed to the parser, the tree reported done, the
  update of the tree by a node, the query of the tree and the start of the extractor at a
  threshold, the calls of the printer, a line logged, and the end by \<^verbatim>\<open>log.Fatal\<close> or by
  a panic.
\<close>

datatype event =
    Println string
  | Parsed "string list"
  | TreeBuilt
  | Updated Node
  | Queried goint
  | Extracting goint
  | Printed pcall
  | Fatal error
  | Panic panic

text \<open>
  The loop \<^verbatim>\<open>for i := *fromThreshold; i >= *toThreshold; i -= 1\<close>. \<open>launch i\<close> is what
  one iteration appends to \<^verbatim>\<open>duplChans\<close>. The value \<open>None\<close> is a loop that never ends.
\<close>

partial_function (option) query_loop ::
  "(goint \<Rightarrow> 'a) \<Rightarrow> goint \<Rightarrow> goint \<Rightarrow> 'a list \<Rightarrow> 'a list option" where
  "query_loop launch i to duplChans =
     (if sint to \<le> sint i
      then query_loop launch (i - 1) to (duplChans @ [launch i])
      else Some duplChans)"

definition launch_query ::
  "('t, 'm) env \<Rightarrow> string list \<Rightarrow> 't \<Rightarrow> Node list \<Rightarrow> goint \<Rightarrow> goint \<times> Match list" where
  "launch_query env paths t data i =
     (i, findDuplicates (RangeOrder env i) (FindSyntaxUnits env) paths data i 0
           (FindDuplOver env t i))"

definition end_events :: "panic + error option \<Rightarrow> event list" where
  "end_events res =
     (case res of Inl pan \<Rightarrow> [Panic pan] | Inr (Some err) \<Rightarrow> [Fatal err] | Inr None \<Rightarrow> [])"

text \<open>
  The events of a run in which the feeding goroutine closed its channel and the loop
  ended with \<open>launched\<close>, the thresholds and their channels: the two log lines of
  \<^verbatim>\<open>-verbose\<close>, the tree built and updated with the sentinel, the queries and extractors
  started, the calls of \<^verbatim>\<open>printDupls\<close>, and \<^verbatim>\<open>log.Fatal\<close> on its error.
\<close>

definition run_events ::
  "('t, 'm) env \<Rightarrow> config \<Rightarrow> string list \<Rightarrow> (goint \<times> Match list) list \<Rightarrow> event list" where
  "run_events env cfg fed launched =
     (if verbose cfg then [Println ''Building suffix tree''] else []) @
     [Parsed fed, TreeBuilt, Updated sentinel] @
     (if verbose cfg then [Println ''Searching for clones''] else []) @
     concat (map (\<lambda>(i, c). [Queried i, Extracting i]) launched) @
     map Printed (fst (printDupls (KeyOrder env) (NewPrinter env (newPrinter cfg))
                         (map snd launched))) @
     end_events (snd (printDupls (KeyOrder env) (NewPrinter env (newPrinter cfg))
                        (map snd launched)))"

definition main :: "('t, 'm) env \<Rightarrow> config \<Rightarrow> event list option" where
  "main env cfg =
     (if html cfg \<and> plumbing cfg
      then Some [Fatal ''you can have either plumbing or HTML output'']
      else
        (let paths = cli_paths (args cfg);
             log1 = (if verbose cfg then [Println ''Building suffix tree''] else []);
             (fed, fin) = filesFeed (FS env) (Stdin env) cfg paths
         in case fin of
              LogFatal err \<Rightarrow> Some (log1 @ [Parsed fed, Fatal err])
            | Panicked pan \<Rightarrow> Some (log1 @ [Parsed fed, Panic pan])
            | Closed \<Rightarrow>
                (let (t0, data) = BuildTree env (Parse env fed);
                     t = Update env t0 sentinel
                 in case query_loop (launch_query env paths t data)
                           (fromThreshold cfg) (toThreshold cfg) [] of
                      None \<Rightarrow> None
                    | Some launched \<Rightarrow> Some (run_events env cfg fed launched))))"

text \<open>The thresholds queried and the thresholds an extractor was started for, in order.\<close>

fun queried :: "event list \<Rightarrow> goint list" where
  "queried [] = []"
| "queried (Queried i # evs) = i # queried evs"
| "queried (ev # evs) = queried evs"

fun extracting :: "event list \<Rightarrow> goint list" where
  "extracting [] = []"
| "extracting (Extracting i # evs) = i # extracting evs"
| "extracting (ev # evs) = extracting evs"

subsection \<open>Example values\<close>

text \<open>
  Nodes and matches for the concrete instances below, a file system in which
  \<^verbatim>\<open>missing.go\<close> cannot be read and every other path is a plain file, and an environment
  with this file system, one name on the standard input, a tree without repeats and a
  printer that never fails.
\<close>

definition fs_missing :: fsys where
  "fs_missing =
     \<lparr>Lstat = (\<lambda>path. if path = ''missing.go''
                       then Inl ''lstat missing.go: no such file or directory''
                       else Inr \<lparr>Name = path, IsDir = False\<rparr>),
      Walk = (\<lambda>root. ([], None))\<rparr>"

definition env_missing :: "(unit, unit) env" where
  "env_missing =
     \<lparr>FS = fs_missing, Stdin = [''./a.go''], Parse = (\<lambda>names. []),
      BuildTree = (\<lambda>seqs. ((), [])), Update = (\<lambda>t node. t),
      FindDuplOver = (\<lambda>t i. []),
      FindSyntaxUnits = (\<lambda>data m i. \<lparr>Hash = [], Frags = []\<rparr>),
      NewPrinter = (\<lambda>kind calls c. None), RangeOrder = (\<lambda>i k. in_key_order),
      KeyOrder = (\<lambda>ks. ks)\<rparr>"

abbreviation node_of :: "string \<Rightarrow> int \<Rightarrow> Node" where
  "node_of fn pos \<equiv> \<lparr>Type = 0, Filename = fn, Pos = pos, End = pos + 1, Owns = 1\<rparr>"

abbreviation match_h :: Match where
  "match_h \<equiv> \<lparr>Hash = ''h'', Frags = [[node_of ''a.go'' 1], [node_of ''b.go'' 1]]\<rparr>"

abbreviation match_dot :: Match where
  "match_dot \<equiv> \<lparr>Hash = ''d'', Frags = [[node_of ''./a.go'' 1], [node_of ''b.go'' 1]]\<rparr>"

abbreviation match_abc :: Match where
  "match_abc \<equiv>
     \<lparr>Hash = ''n'', Frags = [[node_of ''a/b/c/x.go'' 1], [node_of ''a/b/c/y.go'' 1]]\<rparr>"

abbreviation match_nested :: Match where
  "match_nested \<equiv>
     \<lparr>Hash = ''m'', Frags = [[node_of ''a/b/x.go'' 1], [node_of ''a/y.go'' 1]]\<rparr>"

abbreviation match_g :: Match where
  "match_g \<equiv> \<lparr>Hash = ''g'', Frags = [[node_of ''a.go'' 7], [node_of ''c.go'' 7]]\<rparr>"

section \<open>Properties\<close>

subsection \<open>unique and printDupls\<close>

lemma seen_of_empty: "seen_of Map.empty = {}"
  by (simp add: seen_of_def)

lemma seen_of_insert:
  "seen_of (fm(fn \<mapsto> insert pos (case fm fn of None \<Rightarrow> {} | Some f \<Rightarrow> f))) = insert (fn, pos) (seen_of fm)"
  by (auto simp: seen_of_def split: option.splits if_splits)

lemma seen_of_insert_new:
  "fm fn = None \<Longrightarrow> seen_of (fm(fn \<mapsto> {pos})) = insert (fn, pos) (seen_of fm)"
  by (auto simp: seen_of_def split: option.splits if_splits)

lemma seen_of_insert_old:
  "fm fn = Some f \<Longrightarrow> seen_of (fm(fn \<mapsto> insert pos f)) = insert (fn, pos) (seen_of fm)"
  by (auto simp: seen_of_def split: option.splits if_splits)

lemma seen_of_mem: "fm fn = Some f \<Longrightarrow> (fn, pos) \<in> seen_of fm \<longleftrightarrow> pos \<in> f"
  by (auto simp: seen_of_def)

lemma unique_loop_new:
  "fm (Filename node) = None \<Longrightarrow>
   unique_loop ((node # ns) # rest) fm acc =
     unique_loop rest (fm(Filename node \<mapsto> {Pos node})) (acc @ [node # ns])"
  by simp

lemma unique_loop_old:
  "fm (Filename node) = Some f \<Longrightarrow>
   unique_loop ((node # ns) # rest) fm acc =
     (if Pos node \<notin> f
      then unique_loop rest (fm(Filename node \<mapsto> insert (Pos node) f)) (acc @ [node # ns])
      else unique_loop rest fm acc)"
  by simp

lemma unique_loop_keep_first:
  "\<forall>seq \<in> set grp. seq \<noteq> [] \<Longrightarrow>
   unique_loop grp fm acc = Inr (acc @ keep_first (seen_of fm) grp)"
proof (induction grp arbitrary: fm acc)
  case Nil
  then show ?case by simp
next
  case (Cons seq rest)
  then obtain node ns where seq: "seq = node # ns" by (cases seq) auto
  from Cons.prems have rest: "\<forall>s \<in> set rest. s \<noteq> []" by simp
  note IH = Cons.IH [OF rest]
  show ?case
  proof (cases "fm (Filename node)")
    case None
    then have notin: "frag_key seq \<notin> seen_of fm"
      by (auto simp: seen_of_def frag_key_def seq)
    have "unique_loop (seq # rest) fm acc =
            unique_loop rest (fm(Filename node \<mapsto> {Pos node})) (acc @ [seq])"
      unfolding seq using None by (rule unique_loop_new)
    also have "\<dots> = Inr ((acc @ [seq]) @
                 keep_first (seen_of (fm(Filename node \<mapsto> {Pos node}))) rest)"
      by (rule IH)
    also have "seen_of (fm(Filename node \<mapsto> {Pos node})) = insert (frag_key seq) (seen_of fm)"
      using seen_of_insert_new [of fm "Filename node" "Pos node"] None
      by (simp add: frag_key_def seq)
    finally show ?thesis using notin by simp
  next
    case (Some f)
    have mem: "frag_key seq \<in> seen_of fm \<longleftrightarrow> Pos node \<in> f"
      using seen_of_mem [of fm "Filename node" f "Pos node"] Some
      by (simp add: frag_key_def seq)
    show ?thesis
    proof (cases "Pos node \<in> f")
      case True
      have "unique_loop (seq # rest) fm acc = unique_loop rest fm acc"
        unfolding seq using unique_loop_old [of fm node f ns rest acc] Some True by simp
      then show ?thesis using IH [of fm acc] mem True by simp
    next
      case False
      have "unique_loop (seq # rest) fm acc =
              unique_loop rest (fm(Filename node \<mapsto> insert (Pos node) f)) (acc @ [seq])"
        unfolding seq using unique_loop_old [of fm node f ns rest acc] Some False by simp
      also have "\<dots> = Inr ((acc @ [seq]) @
                   keep_first (seen_of (fm(Filename node \<mapsto> insert (Pos node) f))) rest)"
        by (rule IH)
      also have "seen_of (fm(Filename node \<mapsto> insert (Pos node) f)) =
                   insert (frag_key seq) (seen_of fm)"
        using seen_of_insert_old [of fm "Filename node" f "Pos node"] Some
        by (simp add: frag_key_def seq)
      finally show ?thesis using mem False by simp
    qed
  qed
qed

lemma unique_loop_panics:
  "\<exists>seq \<in> set grp. seq = [] \<Longrightarrow> unique_loop grp fm acc = Inl IndexOutOfRange"
proof (induction grp arbitrary: fm acc)
  case Nil
  then show ?case by simp
next
  case (Cons seq rest)
  show ?case
  proof (cases seq)
    case Nil
    then show ?thesis by simp
  next
    case (Cons node ns)
    with Cons.prems have "\<exists>s \<in> set rest. s = []" by auto
    then show ?thesis using Cons.IH Cons
      by (simp add: Let_def split: option.splits prod.splits)
  qed
qed

lemma keep_first_keys: "frag_key ` set (keep_first seen grp) = frag_key ` set grp - seen"
  by (induction grp arbitrary: seen) auto

lemma keep_first_distinct: "distinct (map frag_key (keep_first seen grp))"
proof (induction grp arbitrary: seen)
  case Nil
  then show ?case by simp
next
  case (Cons seq rest)
  then show ?case using keep_first_keys [of "insert (frag_key seq) seen" rest] by auto
qed

lemma keep_first_subseq: "subseq (keep_first seen grp) grp"
  by (induction grp arbitrary: seen) auto

lemma print_groups_calls:
  "PrintClones g \<in> set (fst (print_groups p groups keys calls)) \<Longrightarrow>
   PrintClones g \<in> set calls \<or>
   (\<exists>k \<in> set keys. unique (group_at groups k) = Inr g \<and> 1 < length g)"
proof (induction keys arbitrary: calls)
  case Nil
  then show ?case by simp
next
  case (Cons k keys)
  show ?case
  proof (cases "unique (group_at groups k)")
    case (Inl pan)
    with Cons.prems show ?thesis by simp
  next
    case (Inr uniq)
    show ?thesis
    proof (cases "1 < length uniq")
      case False
      with Inr Cons.prems have "PrintClones g \<in> set (fst (print_groups p groups keys calls))"
        by simp
      from Cons.IH [OF this] show ?thesis by auto
    next
      case True
      show ?thesis
      proof (cases "p calls (PrintClones uniq)")
        case (Some err)
        with Inr True Cons.prems show ?thesis by auto
      next
        case None
        with Inr True Cons.prems
        have "PrintClones g \<in> set (fst (print_groups p groups keys (calls @ [PrintClones uniq])))"
          by simp
        from Cons.IH [OF this] Inr True show ?thesis by auto
      qed
    qed
  qed
qed

lemma print_collected_calls:
  "PrintClones g \<in> set (fst (print_collected ko p groups)) \<Longrightarrow>
   \<exists>k. unique (group_at groups k) = Inr g \<and> 1 < length g"
proof (cases "p [] PrintHeader")
  case (Some err)
  assume "PrintClones g \<in> set (fst (print_collected ko p groups))"
  with Some show ?thesis by (simp add: print_collected_def)
next
  case None
  assume "PrintClones g \<in> set (fst (print_collected ko p groups))"
  with None have "PrintClones g \<in> set (fst (print_groups p groups (group_keys ko groups) [PrintHeader]))"
    by (simp add: print_collected_def)
  from print_groups_calls [OF this] show ?thesis by auto
qed

lemma unique_Inr_nonempty: "unique grp = Inr uniq \<Longrightarrow> \<forall>seq \<in> set grp. seq \<noteq> []"
  using unique_loop_panics [of grp Map.empty "[]"] by (auto simp: unique_def)

lemma unique_Inr_keep_first: "unique grp = Inr uniq \<Longrightarrow> uniq = keep_first {} grp"
  using unique_loop_keep_first [OF unique_Inr_nonempty, of grp uniq Map.empty "[]"]
  by (simp add: unique_def seen_of_empty)

lemma keep_first_set: "set (keep_first seen grp) \<subseteq> set grp"
  by (induction grp arbitrary: seen) auto

lemma group_keys_sorted:
  assumes "is_key_order ko" "distinct (map fst groups)"
  shows "group_keys ko groups = sorted_list_of_set (fst ` set groups)"
proof -
  from assms have d: "distinct (ko (map fst groups))" and s: "set (ko (map fst groups)) = fst ` set groups"
    by (auto simp: is_key_order_def)
  have "sort (ko (map fst groups)) = sorted_list_of_set (set (ko (map fst groups)))"
    using d by (simp add: sorted_list_of_set_sort_remdups distinct_remdups_id)
  then show ?thesis using s by (simp add: group_keys_def)
qed

lemma print_groups_cong:
  "(\<And>k. group_at g1 k = group_at g2 k) \<Longrightarrow> print_groups p g1 keys calls = print_groups p g2 keys calls"
  by (induction keys arbitrary: calls) (simp_all split: sum.splits option.splits)

lemma distinct_add_dupl: "distinct (map fst groups) \<Longrightarrow> distinct (map fst (add_dupl groups dupl))"
  by (simp add: add_dupl_def distinct_update)

lemma distinct_foldl_add_dupl:
  "distinct (map fst groups) \<Longrightarrow> distinct (map fst (foldl add_dupl groups dupls))"
  by (induction dupls arbitrary: groups) (simp_all add: distinct_add_dupl)

lemma distinct_collect_groups: "distinct (map fst (collect_groups duplChans))"
  by (simp add: collect_groups_def distinct_foldl_add_dupl)

lemma keys_add_dupl: "fst ` set (add_dupl groups dupl) = insert (Hash dupl) (fst ` set groups)"
  using dom_update [of "Hash dupl" _ groups] by (simp add: add_dupl_def dom_map_of_conv_image_fst)

lemma keys_foldl_add_dupl:
  "fst ` set (foldl add_dupl groups dupls) = fst ` set groups \<union> Hash ` set dupls"
  by (induction dupls arbitrary: groups) (auto simp: keys_add_dupl)

lemma keys_collect_groups: "fst ` set (collect_groups duplChans) = Hash ` (\<Union>c \<in> set duplChans. set c)"
  by (simp add: collect_groups_def keys_foldl_add_dupl)

text \<open>
  C4: \<^verbatim>\<open>unique\<close> keeps, in the order of the group, the first fragment of every pair of
  file name and starting position and drops the later ones, so the fragments it returns
  have pairwise different pairs; every group handed to \<^verbatim>\<open>PrintClones\<close> is such a result.
\<close>

theorem unique_one_per_file_pos:
  "(unique grp = Inr uniq \<longrightarrow>
      uniq = keep_first {} grp \<and> distinct (map frag_key uniq) \<and> subseq uniq grp \<and>
      frag_key ` set uniq = frag_key ` set grp \<and> (\<forall>seq \<in> set uniq. seq \<noteq> [])) \<and>
   (PrintClones g \<in> set (fst (printDupls ko p duplChans)) \<longrightarrow>
      distinct (map frag_key g) \<and> (\<forall>seq \<in> set g. seq \<noteq> []))"
proof (intro conjI impI)
  assume u: "unique grp = Inr uniq"
  then show k: "uniq = keep_first {} grp" by (rule unique_Inr_keep_first)
  show "distinct (map frag_key uniq)" unfolding k by (rule keep_first_distinct)
  show "subseq uniq grp" unfolding k by (rule keep_first_subseq)
  show "frag_key ` set uniq = frag_key ` set grp" unfolding k by (simp add: keep_first_keys)
  show "\<forall>seq \<in> set uniq. seq \<noteq> []"
    using unique_Inr_nonempty [OF u] keep_first_set [of "{}" grp] unfolding k by blast
next
  assume "PrintClones g \<in> set (fst (printDupls ko p duplChans))"
  then obtain k where u: "unique (group_at (collect_groups duplChans) k) = Inr g"
    using print_collected_calls [of g ko p "collect_groups duplChans"]
    by (auto simp: printDupls_def)
  have k: "g = keep_first {} (group_at (collect_groups duplChans) k)"
    using u by (rule unique_Inr_keep_first)
  show "distinct (map frag_key g)" by (subst k) (rule keep_first_distinct)
  show "\<forall>seq \<in> set g. seq \<noteq> []"
    using unique_Inr_nonempty [OF u] keep_first_set [of "{}" "group_at (collect_groups duplChans) k"] k
    by blast
qed

theorem unique_one_per_file_pos_witness:
  "unique [[node_of ''a.go'' 1, node_of ''a.go'' 2], [node_of ''b.go'' 1], [node_of ''a.go'' 1]]
     = Inr [[node_of ''a.go'' 1, node_of ''a.go'' 2], [node_of ''b.go'' 1]] \<and>
   distinct (map frag_key [[node_of ''a.go'' 1, node_of ''a.go'' 2], [node_of ''b.go'' 1]]) \<and>
   PrintClones [[node_of ''a.go'' 1], [node_of ''b.go'' 1]] \<in> set (fst (printDupls (\<lambda>ks. ks) (\<lambda>calls c. None)
       [[\<lparr>Hash = ''h'', Frags = [[node_of ''a.go'' 1], [node_of ''b.go'' 1]]\<rparr>],
        [\<lparr>Hash = ''h'', Frags = [[node_of ''a.go'' 1], [node_of ''b.go'' 1]]\<rparr>]])) \<and>
   distinct (map frag_key [[node_of ''a.go'' 1], [node_of ''b.go'' 1]])"
proof -
  have u: "unique [[node_of ''a.go'' 1, node_of ''a.go'' 2], [node_of ''b.go'' 1], [node_of ''a.go'' 1]]
     = Inr [[node_of ''a.go'' 1, node_of ''a.go'' 2], [node_of ''b.go'' 1]]"
    by (simp add: unique_def)
  have p: "PrintClones [[node_of ''a.go'' 1], [node_of ''b.go'' 1]] \<in> set (fst (printDupls (\<lambda>ks. ks) (\<lambda>calls c. None)
       [[\<lparr>Hash = ''h'', Frags = [[node_of ''a.go'' 1], [node_of ''b.go'' 1]]\<rparr>],
        [\<lparr>Hash = ''h'', Frags = [[node_of ''a.go'' 1], [node_of ''b.go'' 1]]\<rparr>]]))"
    by (simp add: printDupls_def print_collected_def collect_groups_def add_dupl_def group_at_def
        group_keys_def unique_def)
  from u p unique_one_per_file_pos [of
      "[[node_of ''a.go'' 1, node_of ''a.go'' 2], [node_of ''b.go'' 1], [node_of ''a.go'' 1]]"
      "[[node_of ''a.go'' 1, node_of ''a.go'' 2], [node_of ''b.go'' 1]]"
      "[[node_of ''a.go'' 1], [node_of ''b.go'' 1]]" "\<lambda>ks. ks" "\<lambda>calls c. None"
      "[[\<lparr>Hash = ''h'', Frags = [[node_of ''a.go'' 1], [node_of ''b.go'' 1]]\<rparr>],
        [\<lparr>Hash = ''h'', Frags = [[node_of ''a.go'' 1], [node_of ''b.go'' 1]]\<rparr>]]"]
  show ?thesis by blast
qed

text \<open>
  C5: every group handed to \<^verbatim>\<open>PrintClones\<close> is a result of \<^verbatim>\<open>unique\<close> with at least two
  fragments; a group with fewer fragments after the deduplication is never printed.
\<close>

theorem printed_groups_have_two_fragments:
  "PrintClones g \<in> set (fst (printDupls ko p duplChans)) \<Longrightarrow>
   2 \<le> length g \<and> (\<exists>k. unique (group_at (collect_groups duplChans) k) = Inr g)"
  using print_collected_calls [of g ko p "collect_groups duplChans"]
  by (auto simp: printDupls_def)

theorem printed_groups_have_two_fragments_witness:
  "PrintClones [[node_of ''a.go'' 1], [node_of ''b.go'' 1]] \<in> set (fst (printDupls (\<lambda>ks. ks) (\<lambda>calls c. None)
       [[\<lparr>Hash = ''h'', Frags = [[node_of ''a.go'' 1], [node_of ''b.go'' 1]]\<rparr>],
        [\<lparr>Hash = ''g'', Frags = [[node_of ''a.go'' 7], [node_of ''a.go'' 7]]\<rparr>]])) \<and>
   2 \<le> length [[node_of ''a.go'' 1], [node_of ''b.go'' 1]]"
proof -
  have p: "PrintClones [[node_of ''a.go'' 1], [node_of ''b.go'' 1]] \<in> set (fst (printDupls (\<lambda>ks. ks) (\<lambda>calls c. None)
       [[\<lparr>Hash = ''h'', Frags = [[node_of ''a.go'' 1], [node_of ''b.go'' 1]]\<rparr>],
        [\<lparr>Hash = ''g'', Frags = [[node_of ''a.go'' 7], [node_of ''a.go'' 7]]\<rparr>]]))"
    by (simp add: printDupls_def print_collected_def collect_groups_def add_dupl_def group_at_def
        group_keys_def unique_def)
  from p printed_groups_have_two_fragments [OF p] show ?thesis by blast
qed

text \<open>
  C10: \<^verbatim>\<open>unique\<close> reads \<^verbatim>\<open>seq[0]\<close> of every fragment. On a group whose fragments all
  have a node it returns; on a group with an empty fragment it panics with an index out
  of range.
\<close>

theorem unique_total_iff_nonempty:
  "((\<forall>seq \<in> set grp. seq \<noteq> []) \<longrightarrow> (\<exists>uniq. unique grp = Inr uniq)) \<and>
   ((\<exists>seq \<in> set grp. seq = []) \<longrightarrow> unique grp = Inl IndexOutOfRange)"
  using unique_loop_keep_first [of grp Map.empty "[]"] unique_loop_panics [of grp Map.empty "[]"]
  by (simp add: unique_def)

theorem unique_total_iff_nonempty_witness:
  "(\<exists>uniq. unique [[node_of ''a.go'' 1], [node_of ''a.go'' 1]] = Inr uniq) \<and>
   unique [[node_of ''a.go'' 1], []] = Inl IndexOutOfRange"
proof -
  have h1: "\<forall>seq \<in> set [[node_of ''a.go'' 1], [node_of ''a.go'' 1]]. seq \<noteq> []" by simp
  have h2: "\<exists>seq \<in> set [[node_of ''a.go'' 1], []]. seq = []" by simp
  from h1 h2 unique_total_iff_nonempty [of "[[node_of ''a.go'' 1], [node_of ''a.go'' 1]]"]
    unique_total_iff_nonempty [of "[[node_of ''a.go'' 1], []]"]
  show ?thesis by blast
qed

lemma group_keys_props:
  assumes "is_key_order ko" "distinct (map fst groups)"
  shows "sorted (group_keys ko groups)" "distinct (group_keys ko groups)"
    "set (group_keys ko groups) = fst ` set groups"
  using assms by (auto simp: group_keys_def is_key_order_def)

lemma group_keys_eq:
  assumes "is_key_order ko1" "is_key_order ko2"
    and "distinct (map fst g1)" "distinct (map fst g2)" "map_of g1 = map_of g2"
  shows "group_keys ko1 g1 = group_keys ko2 g2"
proof -
  have "fst ` set g1 = fst ` set g2"
    using assms(5) by (metis dom_map_of_conv_image_fst)
  then show ?thesis
    using group_keys_sorted [OF assms(1,3)] group_keys_sorted [OF assms(2,4)] by simp
qed

lemma print_collected_eq:
  assumes "is_key_order ko1" "is_key_order ko2"
    and "distinct (map fst g1)" "distinct (map fst g2)" "map_of g1 = map_of g2"
  shows "print_collected ko1 p g1 = print_collected ko2 p g2"
proof -
  have k: "group_keys ko1 g1 = group_keys ko2 g2" using assms by (rule group_keys_eq)
  have "\<And>k. group_at g1 k = group_at g2 k" using assms(5) by (simp add: group_at_def)
  then have "print_groups p g1 (group_keys ko2 g2) [PrintHeader] =
      print_groups p g2 (group_keys ko2 g2) [PrintHeader]"
    by (rule print_groups_cong)
  then show ?thesis by (cases "p [] PrintHeader") (simp_all add: print_collected_def k)
qed

lemma group_at_add_dupl:
  "group_at (add_dupl groups dupl) k =
     (if k = Hash dupl then group_at groups k @ Frags dupl else group_at groups k)"
  by (simp add: add_dupl_def group_at_def update_conv')

lemma group_at_foldl_add_dupl:
  "group_at (foldl add_dupl groups dupls) k =
     group_at groups k @ concat (map Frags (filter (\<lambda>dupl. Hash dupl = k) dupls))"
  by (induction dupls arbitrary: groups) (simp_all add: group_at_add_dupl)

lemma group_at_Nil: "group_at [] k = []"
  by (simp add: group_at_def)

lemma group_at_collect_groups: "group_at (collect_groups duplChans) k = group_of duplChans k"
  by (simp add: collect_groups_def group_of_def group_at_foldl_add_dupl group_at_Nil)

lemma group_keys_collect_groups:
  assumes "is_key_order ko"
  shows "group_keys ko (collect_groups duplChans) = sorted_hashes duplChans"
proof -
  have s: "set (map Hash (concat duplChans)) = Hash ` (\<Union>c \<in> set duplChans. set c)"
    by auto
  have "group_keys ko (collect_groups duplChans) =
      sorted_list_of_set (Hash ` (\<Union>c \<in> set duplChans. set c))"
    using group_keys_sorted [OF assms distinct_collect_groups, of duplChans]
    by (simp only: keys_collect_groups)
  also have "\<dots> = sorted_list_of_set (set (map Hash (concat duplChans)))"
    by (simp only: s)
  also have "\<dots> = sort (remdups (map Hash (concat duplChans)))"
    by (rule sorted_list_of_set_sort_remdups)
  finally show ?thesis by (simp only: sorted_hashes_def)
qed

lemma printed_append: "printed (xs @ ys) = printed xs @ printed ys"
  by (induction xs rule: printed.induct) simp_all

lemma printed_map_PrintClones: "printed (map PrintClones gs) = gs"
  by (induction gs) simp_all

text \<open>
  Whatever the printer and the fragments do, the groups handed to \<^verbatim>\<open>PrintClones\<close> are
  an initial part of the deduplicated groups of two or more fragments, in the order of
  the keys.
\<close>

lemma print_groups_order:
  "\<exists>gs. printed (fst (print_groups p groups keys calls)) = printed calls @ gs \<and>
        prefix gs (filter (\<lambda>uniq. 1 < length uniq)
                     (map (\<lambda>k. keep_first {} (group_at groups k)) keys))"
proof (induction keys arbitrary: calls)
  case Nil
  then show ?case by (simp add: printed_append)
next
  case (Cons k keys)
  let ?E = "\<lambda>ks. filter (\<lambda>uniq. 1 < length uniq) (map (\<lambda>k. keep_first {} (group_at groups k)) ks)"
  show ?case
  proof (cases "unique (group_at groups k)")
    case (Inl pan)
    then show ?thesis by simp
  next
    case (Inr uniq)
    then have u: "uniq = keep_first {} (group_at groups k)" by (rule unique_Inr_keep_first)
    show ?thesis
    proof (cases "1 < length uniq")
      case False
      then have e: "?E (k # keys) = ?E keys" using u by simp
      from Cons.IH [of calls] obtain gs where
        "printed (fst (print_groups p groups keys calls)) = printed calls @ gs" "prefix gs (?E keys)"
        by blast
      then show ?thesis using Inr False e by auto
    next
      case True
      then have e: "?E (k # keys) = uniq # ?E keys" using u by simp
      show ?thesis
      proof (cases "p calls (PrintClones uniq)")
        case (Some err)
        have "printed (fst (print_groups p groups (k # keys) calls)) = printed calls @ [uniq]"
          using Inr True Some by (simp add: printed_append)
        moreover have "prefix [uniq] (?E (k # keys))" unfolding e by simp
        ultimately show ?thesis by blast
      next
        case None
        from Cons.IH [of "calls @ [PrintClones uniq]"] obtain gs where
          g: "printed (fst (print_groups p groups keys (calls @ [PrintClones uniq]))) =
              printed (calls @ [PrintClones uniq]) @ gs" "prefix gs (?E keys)"
          by blast
        have "printed (fst (print_groups p groups (k # keys) calls)) = printed calls @ (uniq # gs)"
          using Inr True None g(1) by (simp add: printed_append)
        moreover have "prefix (uniq # gs) (?E (k # keys))" unfolding e using g(2) by simp
        ultimately show ?thesis by blast
      qed
    qed
  qed
qed

text \<open>With a printer that never fails and no empty fragment, all of them are printed.\<close>

lemma print_groups_all:
  assumes "\<And>calls c. p calls c = None"
    and "\<And>k seq. seq \<in> set (group_at groups k) \<Longrightarrow> seq \<noteq> []"
  shows "fst (print_groups p groups keys calls) =
     calls @ map PrintClones (filter (\<lambda>uniq. 1 < length uniq)
                (map (\<lambda>k. keep_first {} (group_at groups k)) keys)) @ [PrintFooter]"
proof (induction keys arbitrary: calls)
  case Nil
  then show ?case by simp
next
  case (Cons k keys)
  have "\<forall>seq \<in> set (group_at groups k). seq \<noteq> []" using assms(2) by blast
  then have u: "unique (group_at groups k) = Inr (keep_first {} (group_at groups k))"
    using unique_loop_keep_first [of "group_at groups k" Map.empty "[]"]
    by (simp add: unique_def seen_of_empty)
  show ?case
  proof (cases "1 < length (keep_first {} (group_at groups k))")
    case True
    then show ?thesis using u assms(1) Cons.IH by simp
  next
    case False
    then show ?thesis using u Cons.IH by simp
  qed
qed

lemma sorted_hashes_example: "sorted_hashes [[match_h], [match_g]] = [''g'', ''h'']"
  by (simp add: sorted_hashes_def)

lemma group_of_example_g:
  "group_of [[match_h], [match_g]] ''g'' = [[node_of ''a.go'' 7], [node_of ''c.go'' 7]]"
  by (simp add: group_of_def)

lemma group_of_example_h:
  "group_of [[match_h], [match_g]] ''h'' = [[node_of ''a.go'' 1], [node_of ''b.go'' 1]]"
  by (simp add: group_of_def)

lemma keep_first_example_g:
  "keep_first {} [[node_of ''a.go'' 7], [node_of ''c.go'' 7]] =
     [[node_of ''a.go'' 7], [node_of ''c.go'' 7]]"
  by (simp add: frag_key_def)

lemma keep_first_example_h:
  "keep_first {} [[node_of ''a.go'' 1], [node_of ''b.go'' 1]] =
     [[node_of ''a.go'' 1], [node_of ''b.go'' 1]]"
  by (simp add: frag_key_def)

text \<open>
  C7: whatever order the runtime iterates the map in, the groups \<^verbatim>\<open>printDupls\<close> hands to
  \<^verbatim>\<open>PrintClones\<close> are an initial part of the groups in ascending lexicographic order
  of their hashes; with a printer that never fails and no empty fragment the calls are
  the header, all these groups in this order, and the footer. Two runs whose group maps
  are equal make the same calls on the printer, in the same order.
\<close>

theorem printDupls_order_deterministic:
  assumes "is_key_order ko1" and "is_key_order ko2"
  shows "prefix (printed (fst (printDupls ko1 p duplChans))) (groups_in_key_order duplChans) \<and>
         ((\<forall>calls c. p calls c = None) \<and>
          (\<forall>dupl \<in> set (concat duplChans). \<forall>seq \<in> set (Frags dupl). seq \<noteq> []) \<longrightarrow>
            fst (printDupls ko1 p duplChans) =
              PrintHeader # map PrintClones (groups_in_key_order duplChans) @ [PrintFooter]) \<and>
         sorted (sorted_hashes duplChans) \<and> distinct (sorted_hashes duplChans) \<and>
         set (sorted_hashes duplChans) = Hash ` (\<Union>c \<in> set duplChans. set c) \<and>
         sorted (group_keys ko1 (collect_groups duplChans)) \<and>
         distinct (group_keys ko1 (collect_groups duplChans)) \<and>
         set (group_keys ko1 (collect_groups duplChans)) = Hash ` (\<Union>c \<in> set duplChans. set c) \<and>
         (map_of (collect_groups duplChans) = map_of (collect_groups duplChans') \<longrightarrow>
            printDupls ko1 p duplChans = printDupls ko2 p duplChans')"
proof (intro conjI impI)
  note d = distinct_collect_groups [of duplChans]
  note k = group_keys_collect_groups [OF assms(1), of duplChans]
  have E: "filter (\<lambda>uniq. 1 < length uniq)
        (map (\<lambda>k. keep_first {} (group_at (collect_groups duplChans) k))
           (sorted_hashes duplChans)) = groups_in_key_order duplChans"
    by (simp add: groups_in_key_order_def group_at_collect_groups)
  show "prefix (printed (fst (printDupls ko1 p duplChans))) (groups_in_key_order duplChans)"
  proof (cases "p [] PrintHeader")
    case (Some err)
    then show ?thesis by (simp add: printDupls_def print_collected_def)
  next
    case None
    from print_groups_order [of p "collect_groups duplChans" "sorted_hashes duplChans" "[PrintHeader]"]
    obtain gs where "printed (fst (print_groups p (collect_groups duplChans)
          (sorted_hashes duplChans) [PrintHeader])) = printed [PrintHeader] @ gs"
      and "prefix gs (groups_in_key_order duplChans)"
      unfolding E by blast
    then show ?thesis using None by (simp add: printDupls_def print_collected_def k)
  qed
  show "sorted (sorted_hashes duplChans)" by (simp add: sorted_hashes_def)
  show "distinct (sorted_hashes duplChans)" by (simp add: sorted_hashes_def)
  show "set (sorted_hashes duplChans) = Hash ` (\<Union>c \<in> set duplChans. set c)"
    by (auto simp: sorted_hashes_def)
  show "sorted (group_keys ko1 (collect_groups duplChans))"
    using assms(1) d by (rule group_keys_props)
  show "distinct (group_keys ko1 (collect_groups duplChans))"
    using assms(1) d by (rule group_keys_props)
  show "set (group_keys ko1 (collect_groups duplChans)) = Hash ` (\<Union>c \<in> set duplChans. set c)"
    using group_keys_props(3) [OF assms(1) d] by (simp add: keys_collect_groups)
next
  assume a: "(\<forall>calls c. p calls c = None) \<and>
          (\<forall>dupl \<in> set (concat duplChans). \<forall>seq \<in> set (Frags dupl). seq \<noteq> [])"
  have ne: "seq \<noteq> []" if "seq \<in> set (group_at (collect_groups duplChans) k)" for k seq
  proof -
    from that obtain dupl where "dupl \<in> set (concat duplChans)" "seq \<in> set (Frags dupl)"
      by (auto simp: group_at_collect_groups group_of_def)
    with a show ?thesis by blast
  qed
  have "fst (print_groups p (collect_groups duplChans) (sorted_hashes duplChans) [PrintHeader]) =
      [PrintHeader] @ map PrintClones (filter (\<lambda>uniq. 1 < length uniq)
        (map (\<lambda>k. keep_first {} (group_at (collect_groups duplChans) k))
           (sorted_hashes duplChans))) @ [PrintFooter]"
    using a ne by (intro print_groups_all) auto
  then show "fst (printDupls ko1 p duplChans) =
      PrintHeader # map PrintClones (groups_in_key_order duplChans) @ [PrintFooter]"
    using a
    by (simp add: printDupls_def print_collected_def group_keys_collect_groups [OF assms(1)]
        groups_in_key_order_def group_at_collect_groups)
next
  assume "map_of (collect_groups duplChans) = map_of (collect_groups duplChans')"
  then show "printDupls ko1 p duplChans = printDupls ko2 p duplChans'"
    unfolding printDupls_def
    using print_collected_eq [OF assms distinct_collect_groups [of duplChans]
        distinct_collect_groups [of duplChans']] by blast
qed

theorem printDupls_order_deterministic_witness:
  "fst (printDupls rev (\<lambda>calls c. None) [[match_h], [match_g]]) =
     [PrintHeader, PrintClones [[node_of ''a.go'' 7], [node_of ''c.go'' 7]],
      PrintClones [[node_of ''a.go'' 1], [node_of ''b.go'' 1]], PrintFooter] \<and>
   printDupls (\<lambda>ks. ks) (\<lambda>calls c. None) [[match_h], [match_g]] =
     printDupls rev (\<lambda>calls c. None) [[match_g, match_h]]"
proof -
  have k1: "is_key_order (\<lambda>ks. ks)" by (simp add: is_key_order_def)
  have k2: "is_key_order rev" by (simp add: is_key_order_def)
  have a: "(\<forall>calls c. (\<lambda>calls c. None :: error option) calls c = None) \<and>
      (\<forall>dupl \<in> set (concat [[match_h], [match_g]]). \<forall>seq \<in> set (Frags dupl). seq \<noteq> [])"
    by simp
  have g: "groups_in_key_order [[match_h], [match_g]] =
      [[[node_of ''a.go'' 7], [node_of ''c.go'' 7]], [[node_of ''a.go'' 1], [node_of ''b.go'' 1]]]"
    unfolding groups_in_key_order_def sorted_hashes_example list.map group_of_example_g
      group_of_example_h keep_first_example_g keep_first_example_h
    by simp
  have m: "map_of (collect_groups [[match_h], [match_g]]) =
      map_of (collect_groups [[match_g, match_h]])"
    by (auto simp: collect_groups_def add_dupl_def group_at_def)
  note t1 = printDupls_order_deterministic [OF k2 k2, of "\<lambda>calls c. None" "[[match_h], [match_g]]"]
  note t2 = printDupls_order_deterministic [OF k1 k2, of "\<lambda>calls c. None" "[[match_h], [match_g]]"
      "[[match_g, match_h]]"]
  have "fst (printDupls rev (\<lambda>calls c. None) [[match_h], [match_g]]) =
      PrintHeader # map PrintClones (groups_in_key_order [[match_h], [match_g]]) @ [PrintFooter]"
    by (rule t1 [THEN conjunct2, THEN conjunct1, THEN mp, OF a])
  then have 1: "fst (printDupls rev (\<lambda>calls c. None) [[match_h], [match_g]]) =
     [PrintHeader, PrintClones [[node_of ''a.go'' 7], [node_of ''c.go'' 7]],
      PrintClones [[node_of ''a.go'' 1], [node_of ''b.go'' 1]], PrintFooter]"
    by (simp only: g list.map append.simps)
  have 2: "printDupls (\<lambda>ks. ks) (\<lambda>calls c. None) [[match_h], [match_g]] =
     printDupls rev (\<lambda>calls c. None) [[match_g, match_h]]"
    by (rule t2 [THEN conjunct2, THEN conjunct2, THEN conjunct2, THEN conjunct2, THEN conjunct2,
          THEN conjunct2, THEN conjunct2, THEN conjunct2, THEN mp, OF m])
  from 1 2 show ?thesis by (rule conjI)
qed

subsection \<open>findDuplicates\<close>

lemma range_pathMap_cases:
  "(\<exists>k \<in> set order. prefix k fn \<and> range_pathMap order fn pm = removeAll k pm) \<or>
   ((\<forall>k \<in> set order. \<not> prefix k fn) \<and> range_pathMap order fn pm = pm)"
  by (induction order) auto

lemma range_pathMap_subset: "set (range_pathMap order fn pm) \<subseteq> set pm"
  using range_pathMap_cases [of order fn pm] by auto

lemma range_pathMap_deleted:
  "p \<in> set pm \<Longrightarrow> p \<notin> set (range_pathMap order fn pm) \<Longrightarrow> prefix p fn"
  using range_pathMap_cases [of order fn pm] by auto

lemma nodes_loop_subset: "set (nodes_loop ro j ns pm) \<subseteq> set pm"
proof (induction ns arbitrary: j pm)
  case Nil
  then show ?case by simp
next
  case (Cons n ns)
  show ?case
    using Cons.IH [of "Suc j" "range_pathMap (ro j pm) (Filename n) pm"]
      range_pathMap_subset [of "ro j pm" "Filename n" pm]
    by auto
qed

lemma nodes_loop_deleted:
  "p \<in> set pm \<Longrightarrow> p \<notin> set (nodes_loop ro j ns pm) \<Longrightarrow>
   \<exists>n \<in> set ns. prefix p (Filename n)"
proof (induction ns arbitrary: j pm)
  case Nil
  then show ?case by simp
next
  case (Cons n ns)
  show ?case
  proof (cases "p \<in> set (range_pathMap (ro j pm) (Filename n) pm)")
    case True
    from Cons.IH [OF True] Cons.prems(2) show ?thesis by auto
  next
    case False
    from range_pathMap_deleted [OF Cons.prems(1) False] show ?thesis by auto
  qed
qed

lemma frags_loop_deleted:
  "p \<in> set pm \<Longrightarrow> p \<notin> set (frags_loop ro i fs pm) \<Longrightarrow>
   \<exists>f \<in> set fs. \<exists>n \<in> set f. prefix p (Filename n)"
proof (induction fs arbitrary: i pm)
  case Nil
  then show ?case by simp
next
  case (Cons f fs)
  from Cons.prems(1) have ne: "pm \<noteq> []" by auto
  show ?case
  proof (cases "p \<in> set (nodes_loop (ro i) 0 f pm)")
    case True
    from Cons.IH [OF True] Cons.prems(2) ne show ?thesis by auto
  next
    case False
    from nodes_loop_deleted [OF Cons.prems(1) False] show ?thesis by auto
  qed
qed

lemma set_fold_insert: "set (fold List.insert xs ys) = set xs \<union> set ys"
  by (induction xs arbitrary: ys) auto

lemma matchesFiles_covers: "matchesFiles ro paths match \<Longrightarrow> covers paths match"
  unfolding covers_def
proof
  fix root assume m: "matchesFiles ro paths match" and r: "root \<in> set paths"
  have 1: "root \<in> set (fold List.insert paths [])" using r by (simp add: set_fold_insert)
  have 2: "root \<notin> set (frags_loop ro 0 (Frags match) (fold List.insert paths []))"
    using m by (simp add: matchesFiles_def)
  from frags_loop_deleted [OF 1 2]
  show "\<exists>frag \<in> set (Frags match). \<exists>node \<in> set frag. prefix root (Filename node)" .
qed

lemma unnested_subset: "unnested S \<Longrightarrow> T \<subseteq> S \<Longrightarrow> unnested T"
  by (auto simp: unnested_def)

lemma unnested_one_prefix:
  "unnested S \<Longrightarrow> p \<in> S \<Longrightarrow> q \<in> S \<Longrightarrow> prefix p fn \<Longrightarrow> prefix q fn \<Longrightarrow> p = q"
  using prefix_same_cases [of p fn q] by (auto simp: unnested_def)

lemma range_pathMap_unnested:
  assumes "unnested (set pm)" "set order = set pm"
  shows "set (range_pathMap order fn pm) = {p \<in> set pm. \<not> prefix p fn}"
  using range_pathMap_cases [of order fn pm]
proof
  assume "\<exists>k \<in> set order. prefix k fn \<and> range_pathMap order fn pm = removeAll k pm"
  then obtain k where k: "k \<in> set pm" "prefix k fn" "range_pathMap order fn pm = removeAll k pm"
    using assms(2) by auto
  have "\<And>p. p \<in> set pm \<Longrightarrow> prefix p fn \<longleftrightarrow> p = k"
    using unnested_one_prefix [OF assms(1) _ k(1) _ k(2)] k(2) by auto
  then show ?thesis using k(3) by auto
next
  assume "(\<forall>k \<in> set order. \<not> prefix k fn) \<and> range_pathMap order fn pm = pm"
  then show ?thesis using assms(2) by auto
qed

lemma nodes_loop_unnested:
  assumes "\<And>j keys. set (ro j keys) = set keys"
  shows "unnested (set pm) \<Longrightarrow>
    set (nodes_loop ro j ns pm) = {p \<in> set pm. \<forall>n \<in> set ns. \<not> prefix p (Filename n)}"
proof (induction ns arbitrary: j pm)
  case Nil
  then show ?case by simp
next
  case (Cons n ns)
  let ?pm = "range_pathMap (ro j pm) (Filename n) pm"
  have s: "set ?pm = {p \<in> set pm. \<not> prefix p (Filename n)}"
    using Cons.prems assms by (rule range_pathMap_unnested)
  then have "unnested (set ?pm)" using unnested_subset [OF Cons.prems] by auto
  from Cons.IH [OF this] s show ?case by auto
qed

lemma frags_loop_unnested:
  assumes "is_range_order ro"
  shows "unnested (set pm) \<Longrightarrow>
    set (frags_loop ro i fs pm) =
      {p \<in> set pm. \<forall>f \<in> set fs. \<forall>n \<in> set f. \<not> prefix p (Filename n)}"
proof (induction fs arbitrary: i pm)
  case Nil
  then show ?case by simp
next
  case (Cons f fs)
  show ?case
  proof (cases "pm = []")
    case True
    then show ?thesis by simp
  next
    case False
    let ?pm = "nodes_loop (ro i) 0 f pm"
    have o: "\<And>j keys. set (ro i j keys) = set keys"
      using assms by (simp add: is_range_order_def)
    have s: "set ?pm = {p \<in> set pm. \<forall>n \<in> set f. \<not> prefix p (Filename n)}"
      using o Cons.prems by (rule nodes_loop_unnested)
    then have "unnested (set ?pm)" using unnested_subset [OF Cons.prems] by auto
    from Cons.IH [OF this] s False show ?thesis by auto
  qed
qed

lemma matchesFiles_iff_covers:
  assumes "is_range_order ro" "unnested (set paths)"
  shows "matchesFiles ro paths match \<longleftrightarrow> covers paths match"
proof -
  have u: "unnested (set (fold List.insert paths []))"
    using assms(2) by (simp add: set_fold_insert)
  have "matchesFiles ro paths match \<longleftrightarrow>
      set (frags_loop ro 0 (Frags match) (fold List.insert paths [])) = {}"
    by (simp add: matchesFiles_def)
  also have "\<dots> \<longleftrightarrow> covers paths match"
    unfolding frags_loop_unnested [OF assms(1) u] by (auto simp: covers_def set_fold_insert)
  finally show ?thesis .
qed

lemma covers_frags: "covers paths match \<Longrightarrow> paths \<noteq> [] \<Longrightarrow> 0 < length (Frags match)"
  by (cases paths) (auto simp: covers_def)

lemma emits_iff_covers:
  assumes "is_range_order ro" "unnested (set paths)" "paths \<noteq> []"
  shows "emits ro paths match \<longleftrightarrow> covers paths match"
  using matchesFiles_iff_covers [OF assms(1,2)] covers_frags [OF _ assms(3)]
  by (auto simp: emits_def)

lemma findDuplicates_sound:
  "match \<in> set (findDuplicates ro fsu paths data thr k mchan) \<Longrightarrow>
   \<exists>k' m. m \<in> set mchan \<and> match = fsu data m thr \<and> emits (ro k') paths match"
proof (induction mchan arbitrary: k)
  case Nil
  then show ?case by simp
next
  case (Cons m mchan)
  from Cons.prems
  have "(emits (ro k) paths (fsu data m thr) \<and> match = fsu data m thr) \<or>
        match \<in> set (findDuplicates ro fsu paths data thr (Suc k) mchan)"
    by (auto simp: Let_def split: if_splits)
  then show ?case
  proof
    assume "emits (ro k) paths (fsu data m thr) \<and> match = fsu data m thr"
    then show ?thesis by auto
  next
    assume "match \<in> set (findDuplicates ro fsu paths data thr (Suc k) mchan)"
    from Cons.IH [OF this] show ?thesis by auto
  qed
qed

lemma findDuplicates_filter:
  "(\<And>k' m. emits (ro k') paths (fsu data m thr) \<longleftrightarrow> Q (fsu data m thr)) \<Longrightarrow>
   findDuplicates ro fsu paths data thr k mchan = filter Q (map (\<lambda>m. fsu data m thr) mchan)"
  by (induction mchan arbitrary: k) (simp_all add: Let_def)

text \<open>
  One execution of the range statement deletes at most one key, so a match is sent only
  if its fragments have at least as many nodes as there are different roots.
\<close>

lemma range_pathMap_length:
  "distinct pm \<Longrightarrow>
   distinct (range_pathMap order fn pm) \<and> length pm \<le> Suc (length (range_pathMap order fn pm))"
  using range_pathMap_cases [of order fn pm]
  by (auto simp: distinct_removeAll length_removeAll_less distinct_remove1_removeAll [symmetric]
      length_remove1)

lemma nodes_loop_length:
  "distinct pm \<Longrightarrow>
   distinct (nodes_loop ro j ns pm) \<and> length pm \<le> length ns + length (nodes_loop ro j ns pm)"
proof (induction ns arbitrary: j pm)
  case Nil
  then show ?case by simp
next
  case (Cons n ns)
  from range_pathMap_length [OF Cons.prems, where order = "ro j pm" and fn = "Filename n"]
  have d: "distinct (range_pathMap (ro j pm) (Filename n) pm)"
    and l: "length pm \<le> Suc (length (range_pathMap (ro j pm) (Filename n) pm))" by auto
  from Cons.IH [OF d, where j = "Suc j"] l show ?case by auto
qed

lemma frags_loop_length:
  "distinct pm \<Longrightarrow> length pm \<le> length (concat fs) + length (frags_loop ro i fs pm)"
proof (induction fs arbitrary: i pm)
  case Nil
  then show ?case by simp
next
  case (Cons f fs)
  from nodes_loop_length [OF Cons.prems, where ns = f and ro = "ro i" and j = 0]
  have d: "distinct (nodes_loop (ro i) 0 f pm)"
    and l: "length pm \<le> length f + length (nodes_loop (ro i) 0 f pm)" by auto
  from Cons.IH [OF d, where i = "Suc i"] l show ?case by auto
qed

lemma distinct_fold_insert: "distinct ys \<Longrightarrow> distinct (fold List.insert xs ys)"
  by (induction xs arbitrary: ys) auto

lemma emits_node_per_root:
  assumes "emits ro paths match"
  shows "card (set paths) \<le> length (concat (Frags match))"
proof -
  let ?pm = "fold List.insert paths []"
  have d: "distinct ?pm" by (simp add: distinct_fold_insert)
  have "card (set paths) = length ?pm"
    using distinct_card [OF d] by (simp add: set_fold_insert)
  also have "\<dots> \<le> length (concat (Frags match)) + length (frags_loop ro 0 (Frags match) ?pm)"
    using d by (rule frags_loop_length)
  finally show ?thesis using assms by (simp add: emits_def matchesFiles_def)
qed

text \<open>
  A match that \<^verbatim>\<open>findDuplicates\<close> sends covers every root path by prefix. When there
  is a root path and no root path is a prefix of another, the matches sent are exactly the
  extracted matches that cover every root path, whatever the order of the map iteration.
\<close>

lemma findDuplicates_sends_covering_matches:
  "(match \<in> set (findDuplicates ro fsu paths data thr k mchan) \<longrightarrow> covers paths match) \<and>
   ((\<forall>k. is_range_order (ro k)) \<and> unnested (set paths) \<and> paths \<noteq> [] \<longrightarrow>
      findDuplicates ro fsu paths data thr k mchan =
        filter (covers paths) (map (\<lambda>m. fsu data m thr) mchan))"
proof (intro conjI impI)
  assume "match \<in> set (findDuplicates ro fsu paths data thr k mchan)"
  then obtain k' where "emits (ro k') paths match"
    using findDuplicates_sound [of match ro fsu paths data thr k mchan] by blast
  then show "covers paths match" using matchesFiles_covers by (auto simp: emits_def)
next
  assume a: "(\<forall>k. is_range_order (ro k)) \<and> unnested (set paths) \<and> paths \<noteq> []"
  then have "\<And>k' m. emits (ro k') paths (fsu data m thr) \<longleftrightarrow> covers paths (fsu data m thr)"
    using emits_iff_covers by blast
  then show "findDuplicates ro fsu paths data thr k mchan =
      filter (covers paths) (map (\<lambda>m. fsu data m thr) mchan)"
    by (rule findDuplicates_filter)
qed

text \<open>
  With the roots \<^verbatim>\<open>a\<close>, \<^verbatim>\<open>a/b\<close> and \<^verbatim>\<open>a/b/c\<close> the two fragments of the match below lie
  under all three roots, yet the match is not sent in any order of iteration, since each
  of its two nodes deletes one root only.
\<close>

lemma nested_roots_abc_dropped:
  "covers [''a'', ''a/b'', ''a/b/c''] match_abc \<and>
   findDuplicates (\<lambda>k. in_key_order) (\<lambda>data m thr. m) [''a'', ''a/b'', ''a/b/c''] [] 15 0
     [match_abc] = []"
  by (simp add: covers_def emits_def matchesFiles_def in_key_order_def)

lemma nested_roots_abc_any_order:
  "\<not> emits ro [''a'', ''a/b'', ''a/b/c''] match_abc"
  using emits_node_per_root [of ro "[''a'', ''a/b'', ''a/b/c'']" match_abc] by auto

text \<open>
  With the roots \<^verbatim>\<open>a\<close> and \<^verbatim>\<open>a/b\<close> the match with a fragment in \<^verbatim>\<open>a/b/x.go\<close> and one in
  \<^verbatim>\<open>a/y.go\<close> covers both roots. When the range statement visits \<^verbatim>\<open>a/b\<close> first, the first
  node deletes \<^verbatim>\<open>a/b\<close>, the second \<^verbatim>\<open>a\<close>, and the match is sent; when it visits \<^verbatim>\<open>a\<close>
  first, the first node deletes \<^verbatim>\<open>a\<close>, no node deletes \<^verbatim>\<open>a/b\<close>, and the match is dropped.
\<close>

lemma range_orders_example: "is_range_order in_key_order \<and> is_range_order rev_key_order"
  by (simp add: is_range_order_def in_key_order_def rev_key_order_def)

lemma nested_roots_covered: "covers [''a'', ''a/b''] match_nested"
  by (simp add: covers_def)

lemma nested_roots_sent_in_key_order:
  "findDuplicates (\<lambda>k. in_key_order) (\<lambda>data m thr. m) [''a'', ''a/b''] [] 15 0 [match_nested] =
     [match_nested]"
  by (simp add: emits_def matchesFiles_def in_key_order_def)

lemma nested_roots_dropped_rev_key_order:
  "findDuplicates (\<lambda>k. rev_key_order) (\<lambda>data m thr. m) [''a'', ''a/b''] [] 15 0 [match_nested] =
     []"
  by (simp add: emits_def matchesFiles_def rev_key_order_def)

text \<open>
  C3: \<^verbatim>\<open>matchesFiles\<close> is meant to hold when the match contains all the root paths, but
  one node deletes at most one root (\<^verbatim>\<open>break\<close> after \<^verbatim>\<open>delete\<close>). On nested roots a match
  that covers every root path by prefix is dropped: with the roots \<^verbatim>\<open>a\<close>, \<^verbatim>\<open>a/b\<close>, \<^verbatim>\<open>a/b/c\<close>
  in every order of the map iteration, with the roots \<^verbatim>\<open>a\<close>, \<^verbatim>\<open>a/b\<close> in one order of the
  iteration and not in another.
\<close>

theorem path_filter_drops_covering_match:
  "covers [''a'', ''a/b'', ''a/b/c''] match_abc \<and>
   (\<forall>ro. \<not> emits ro [''a'', ''a/b'', ''a/b/c''] match_abc) \<and>
   findDuplicates (\<lambda>k. in_key_order) (\<lambda>data m thr. m) [''a'', ''a/b'', ''a/b/c''] [] 15 0
     [match_abc] = [] \<and>
   is_range_order in_key_order \<and> is_range_order rev_key_order \<and>
   covers [''a'', ''a/b''] match_nested \<and>
   findDuplicates (\<lambda>k. in_key_order) (\<lambda>data m thr. m) [''a'', ''a/b''] [] 15 0 [match_nested] =
     [match_nested] \<and>
   findDuplicates (\<lambda>k. rev_key_order) (\<lambda>data m thr. m) [''a'', ''a/b''] [] 15 0 [match_nested] =
     []"
proof (intro conjI allI)
  show "covers [''a'', ''a/b'', ''a/b/c''] match_abc"
    by (rule nested_roots_abc_dropped [THEN conjunct1])
  show "\<not> emits ro [''a'', ''a/b'', ''a/b/c''] match_abc" for ro
    by (rule nested_roots_abc_any_order)
  show "findDuplicates (\<lambda>k. in_key_order) (\<lambda>data m thr. m) [''a'', ''a/b'', ''a/b/c''] [] 15 0
     [match_abc] = []"
    by (rule nested_roots_abc_dropped [THEN conjunct2])
  show "is_range_order in_key_order" by (rule range_orders_example [THEN conjunct1])
  show "is_range_order rev_key_order" by (rule range_orders_example [THEN conjunct2])
  show "covers [''a'', ''a/b''] match_nested" by (rule nested_roots_covered)
  show "findDuplicates (\<lambda>k. in_key_order) (\<lambda>data m thr. m) [''a'', ''a/b''] [] 15 0
     [match_nested] = [match_nested]"
    by (rule nested_roots_sent_in_key_order)
  show "findDuplicates (\<lambda>k. rev_key_order) (\<lambda>data m thr. m) [''a'', ''a/b''] [] 15 0
     [match_nested] = []"
    by (rule nested_roots_dropped_rev_key_order)
qed

theorem path_filter_drops_covering_match_witness:
  "findDuplicates (\<lambda>k. in_key_order) (\<lambda>data m thr. m) [''a'', ''a/b''] [] 15 0 [match_nested] =
     [match_nested] \<and>
   findDuplicates (\<lambda>k. rev_key_order) (\<lambda>data m thr. m) [''a'', ''a/b''] [] 15 0 [match_nested] =
     []"
  by (rule path_filter_drops_covering_match [THEN conjunct2, THEN conjunct2, THEN conjunct2,
        THEN conjunct2, THEN conjunct2, THEN conjunct2])

text \<open>
  C9: without path arguments \<^verbatim>\<open>paths\<close> is \<^verbatim>\<open>["."]\<close>, and the matches sent are exactly
  the extracted matches with a node whose file name starts with a dot; every other match
  is dropped.
\<close>

theorem default_paths_filter_on_dot:
  assumes "\<forall>k. is_range_order (ro k)"
  shows "cli_paths [] = [''.''] \<and>
         findDuplicates ro fsu (cli_paths []) data thr k mchan =
           filter (\<lambda>match. \<exists>frag \<in> set (Frags match). \<exists>node \<in> set frag.
                     prefix ''.'' (Filename node))
             (map (\<lambda>m. fsu data m thr) mchan)"
proof
  show p: "cli_paths [] = [''.'']" by (simp add: cli_paths_def)
  have "\<And>k' m. emits (ro k') [''.''] (fsu data m thr) \<longleftrightarrow> covers [''.''] (fsu data m thr)"
    using assms emits_iff_covers [of _ "[''.'']"] by (simp add: unnested_def)
  then have "findDuplicates ro fsu [''.''] data thr k mchan =
      filter (covers [''.'']) (map (\<lambda>m. fsu data m thr) mchan)"
    by (rule findDuplicates_filter)
  then show "findDuplicates ro fsu (cli_paths []) data thr k mchan =
           filter (\<lambda>match. \<exists>frag \<in> set (Frags match). \<exists>node \<in> set frag.
                     prefix ''.'' (Filename node))
             (map (\<lambda>m. fsu data m thr) mchan)"
    by (simp add: p covers_def [abs_def])
qed

theorem default_paths_filter_on_dot_witness:
  "findDuplicates (\<lambda>k. in_key_order) (\<lambda>data m thr. m) (cli_paths []) [] 15 0
     [match_h, match_dot] = [match_dot]"
proof -
  have o: "\<forall>k. is_range_order ((\<lambda>k. in_key_order) k)"
    by (simp add: is_range_order_def in_key_order_def)
  have f: "filter (\<lambda>match. \<exists>frag \<in> set (Frags match). \<exists>node \<in> set frag.
                     prefix ''.'' (Filename node))
             (map (\<lambda>m. m) [match_h, match_dot]) = [match_dot]"
    by simp
  from default_paths_filter_on_dot [OF o, of "\<lambda>data m thr. m" "[]" 15 0 "[match_h, match_dot]"]
  have "findDuplicates (\<lambda>k. in_key_order) (\<lambda>data m thr. m) (cli_paths []) [] 15 0
     [match_h, match_dot] =
        filter (\<lambda>match. \<exists>frag \<in> set (Frags match). \<exists>node \<in> set frag.
                     prefix ''.'' (Filename node))
             (map (\<lambda>m. m) [match_h, match_dot])"
    by blast
  with f show ?thesis by simp
qed

subsection \<open>crawlPaths\<close>

lemma crawlPaths_append:
  "crawlPaths fs cfg ps = (fed, Closed) \<Longrightarrow>
   crawlPaths fs cfg (ps @ rest) =
     (fed @ fst (crawlPaths fs cfg rest), snd (crawlPaths fs cfg rest))"
proof (induction ps arbitrary: fed)
  case Nil
  then show ?case by simp
next
  case (Cons p ps)
  show ?case
  proof (cases "Lstat fs p")
    case (Inl err)
    with Cons.prems show ?thesis by simp
  next
    case (Inr info)
    obtain more r where c: "crawlPaths fs cfg ps = (more, r)" by (cases "crawlPaths fs cfg ps")
    show ?thesis
    proof (cases "IsDir info")
      case False
      with Inr c Cons.prems have r: "r = Closed" and f: "fed = p # more" by auto
      from Cons.IH [of more] c r
      have "crawlPaths fs cfg (ps @ rest) =
          (more @ fst (crawlPaths fs cfg rest), snd (crawlPaths fs cfg rest))" by simp
      with Inr False f show ?thesis by simp
    next
      case True
      obtain sent w where w: "walk_calls cfg (fst (Walk fs p)) = (sent, w)"
        by (cases "walk_calls cfg (fst (Walk fs p))")
      from Cons.prems Inr True w have wn: "w = None"
        by (cases w) auto
      from Cons.prems Inr True w wn have sn: "snd (Walk fs p) = None"
        by (cases "snd (Walk fs p)") auto
      from Cons.prems Inr True w wn sn c have r: "r = Closed" and f: "fed = sent @ more"
        by auto
      from Cons.IH [of more] c r
      have "crawlPaths fs cfg (ps @ rest) =
          (more @ fst (crawlPaths fs cfg rest), snd (crawlPaths fs cfg rest))" by simp
      with Inr True w wn sn f show ?thesis by simp
    qed
  qed
qed

lemma crawlPaths_Lstat_error:
  assumes "crawlPaths fs cfg ps = (fed, Closed)" "Lstat fs p = Inl err"
  shows "crawlPaths fs cfg (ps @ p # qs) = (fed, LogFatal err)"
  using crawlPaths_append [OF assms(1), of "p # qs"] assms(2) by simp

lemma main_feed_fatal:
  assumes "\<not> (html cfg \<and> plumbing cfg)"
    and "filesFeed (FS env) (Stdin env) cfg (cli_paths (args cfg)) = (fed, LogFatal err)"
  shows "main env cfg =
     Some ((if verbose cfg then [Println ''Building suffix tree''] else []) @
           [Parsed fed, Fatal err])"
  using assms by (simp add: main_def)

text \<open>
  C8: in \<^verbatim>\<open>crawlPaths\<close> an error of \<^verbatim>\<open>os.Lstat\<close> on a root path is fatal. The names sent
  for the roots before it stay sent, no root after it is looked at, and \<^verbatim>\<open>main\<close> ends
  with \<^verbatim>\<open>log.Fatal\<close> before the tree is reported done and before anything is printed.
\<close>

theorem root_lstat_error_is_fatal:
  assumes "crawlPaths fs cfg ps = (fed, Closed)" and "Lstat fs p = Inl err"
  shows "crawlPaths fs cfg (ps @ p # qs) = (fed, LogFatal err) \<and>
         (\<not> (html cfg \<and> plumbing cfg) \<and> \<not> files cfg \<and> FS env = fs \<and>
          cli_paths (args cfg) = ps @ p # qs \<longrightarrow>
            main env cfg =
              Some ((if verbose cfg then [Println ''Building suffix tree''] else []) @
                    [Parsed fed, Fatal err]))"
proof (intro conjI impI)
  show c: "crawlPaths fs cfg (ps @ p # qs) = (fed, LogFatal err)"
    using assms by (rule crawlPaths_Lstat_error)
  assume a: "\<not> (html cfg \<and> plumbing cfg) \<and> \<not> files cfg \<and> FS env = fs \<and>
          cli_paths (args cfg) = ps @ p # qs"
  then have "filesFeed (FS env) (Stdin env) cfg (cli_paths (args cfg)) = (fed, LogFatal err)"
    using c by (simp add: filesFeed_def)
  with a show "main env cfg =
      Some ((if verbose cfg then [Println ''Building suffix tree''] else []) @
            [Parsed fed, Fatal err])"
    using main_feed_fatal by blast
qed

theorem root_lstat_error_is_fatal_witness:
  "crawlPaths fs_missing default_flags ([''a.go''] @ ''missing.go'' # [''b.go'']) =
     ([''a.go''], LogFatal ''lstat missing.go: no such file or directory'') \<and>
   main env_missing (default_flags\<lparr>args := [''a.go'', ''missing.go'', ''b.go'']\<rparr>) =
     Some [Parsed [''a.go''], Fatal ''lstat missing.go: no such file or directory'']"
proof -
  let ?cfg = "default_flags\<lparr>args := [''a.go'', ''missing.go'', ''b.go'']\<rparr>"
  have 1: "crawlPaths fs_missing cfg [''a.go''] = ([''a.go''], Closed)" for cfg
    by (simp add: fs_missing_def)
  have 2: "Lstat fs_missing ''missing.go'' = Inl ''lstat missing.go: no such file or directory''"
    by (simp add: fs_missing_def)
  have 3: "\<not> (html ?cfg \<and> plumbing ?cfg) \<and> \<not> files ?cfg \<and> FS env_missing = fs_missing \<and>
      cli_paths (args ?cfg) = [''a.go''] @ ''missing.go'' # [''b.go'']"
    by (simp add: default_flags_def env_missing_def cli_paths_def)
  have v: "\<not> verbose ?cfg" by (simp add: default_flags_def)
  from root_lstat_error_is_fatal [OF 1 2, of default_flags "[''b.go'']", THEN conjunct1]
  have a: "crawlPaths fs_missing default_flags ([''a.go''] @ ''missing.go'' # [''b.go'']) =
      ([''a.go''], LogFatal ''lstat missing.go: no such file or directory'')" .
  from root_lstat_error_is_fatal [OF 1 2, of ?cfg "[''b.go'']" env_missing, THEN conjunct2] 3 v
  have b: "main env_missing ?cfg =
      Some [Parsed [''a.go''], Fatal ''lstat missing.go: no such file or directory'']"
    by simp
  from a b show ?thesis by blast
qed

text \<open>
  C8 as worded fails: the second of three root paths cannot be read, the program
  ends there, the third path is never fed and nothing is printed.
\<close>

theorem root_lstat_error_counterexample:
  "crawlPaths fs_missing default_flags [''a.go'', ''missing.go'', ''b.go''] =
     ([''a.go''], LogFatal ''lstat missing.go: no such file or directory'') \<and>
   main env_missing (default_flags\<lparr>args := [''a.go'', ''missing.go'', ''b.go'']\<rparr>) =
     Some [Parsed [''a.go''], Fatal ''lstat missing.go: no such file or directory'']"
  by (simp add: fs_missing_def env_missing_def default_flags_def main_def filesFeed_def
      cli_paths_def)

subsection \<open>The threshold loop\<close>

lemma sint_dec:
  assumes "- (2 ^ 63) < sint (i :: goint)"
  shows "sint (i - 1) = sint i - 1"
proof -
  have "i - 1 = word_of_int (sint i - 1)" by simp
  then have "sint (i - 1) = signed_take_bit (LENGTH(64) - 1) (sint i - 1)"
    by (simp only: sint_sbintrunc')
  also have "\<dots> = sint i - 1"
    using assms sint_lt [of i] by (simp add: signed_take_bit_int_eq_self)
  finally show ?thesis .
qed

lemma sint_MinInt: "sint MinInt = - (2 ^ 63)"
  by (simp add: MinInt_def)

lemma sint_eq_MinInt: "sint (i :: goint) = - (2 ^ 63) \<longleftrightarrow> i = MinInt"
  using sint_MinInt word_eq_iff_signed [of i MinInt, where ?'a = int] by auto

lemma query_loop_stop:
  "sint i < sint to \<Longrightarrow> query_loop launch i to acc = Some acc"
  by (subst query_loop.simps) simp

lemma query_loop_step:
  "sint to \<le> sint i \<Longrightarrow>
   query_loop launch i to acc = query_loop launch (i - 1) to (acc @ [launch i])"
  by (subst query_loop.simps) simp

lemma query_loop_descending:
  "sint to \<le> sint i \<Longrightarrow> to \<noteq> MinInt \<Longrightarrow>
   query_loop launch i to acc =
     Some (acc @ map (\<lambda>k. launch (word_of_int k)) (rev [sint to..sint i]))"
proof (induction "nat (sint i - sint to)" arbitrary: i acc)
  case 0
  then have e: "sint i = sint to" by simp
  then have ito: "i = to" using word_eq_iff_signed [of i to, where ?'a = int] by simp
  from 0 sint_eq_MinInt [of to] sint_ge [of to] have m: "- (2 ^ 63) < sint i"
    by (simp add: e)
  have "query_loop launch i to acc = query_loop launch (i - 1) to (acc @ [launch i])"
    using 0 by (simp add: query_loop_step)
  also have "\<dots> = Some (acc @ [launch i])"
    using sint_dec [OF m] e by (simp add: query_loop_stop)
  finally show ?case by (simp add: ito)
next
  case (Suc n)
  then have lt: "sint to < sint i" by simp
  from sint_ge [of to] lt have m: "- (2 ^ 63) < sint i" by simp
  have d: "sint (i - 1) = sint i - 1" using m by (rule sint_dec)
  have n: "n = nat (sint (i - 1) - sint to)" using Suc.hyps(2) d by simp
  have le: "sint to \<le> sint (i - 1)" using lt d by simp
  have "query_loop launch i to acc = query_loop launch (i - 1) to (acc @ [launch i])"
    using lt by (simp add: query_loop_step)
  also have "\<dots> = Some ((acc @ [launch i]) @
      map (\<lambda>k. launch (word_of_int k)) (rev [sint to..sint (i - 1)]))"
    using Suc.hyps(1) [OF n le Suc.prems(2)] .
  finally have r: "query_loop launch i to acc = Some ((acc @ [launch i]) @
      map (\<lambda>k. launch (word_of_int k)) (rev [sint to..sint (i - 1)]))" .
  have "[sint to..sint i] = [sint to..sint (i - 1)] @ [sint i]"
    using lt d upto_rec2 [of "sint to" "sint i"] by simp
  then show ?case using r by simp
qed

lemma query_loop_diverges: "query_loop launch i MinInt acc = None"
proof (cases "query_loop launch i MinInt acc")
  case None
  then show ?thesis .
next
  case (Some y)
  have "to \<noteq> MinInt" if "query_loop launch i to acc = Some y" for to
  proof (rule query_loop.raw_induct [where P = "\<lambda>launch i to acc y. to \<noteq> MinInt", OF _ that])
    fix f :: "(goint \<Rightarrow> 'a) \<Rightarrow> goint \<Rightarrow> goint \<Rightarrow> 'a list \<Rightarrow> 'a list option"
    fix launch i to duplChans y
    assume IH: "\<And>launch i to duplChans y. f launch i to duplChans = Some y \<Longrightarrow> to \<noteq> MinInt"
      and step: "(if sint to \<le> sint i then f launch (i - 1) to (duplChans @ [launch i])
                  else Some duplChans) = Some y"
    show "to \<noteq> MinInt"
    proof
      assume m: "to = MinInt"
      then have "sint to \<le> sint i" using sint_ge [of i] by (simp add: sint_MinInt)
      with step have "f launch (i - 1) to (duplChans @ [launch i]) = Some y" by simp
      from IH [OF this] m show False by simp
    qed
  qed
  from this [OF Some] show ?thesis by simp
qed

subsection \<open>main\<close>

lemma queried_append: "queried (xs @ ys) = queried xs @ queried ys"
  by (induction xs rule: queried.induct) simp_all

lemma extracting_append: "extracting (xs @ ys) = extracting xs @ extracting ys"
  by (induction xs rule: extracting.induct) simp_all

lemma queried_Printed: "queried (map Printed calls) = []"
  by (induction calls) simp_all

lemma extracting_Printed: "extracting (map Printed calls) = []"
  by (induction calls) simp_all

lemma queried_end_events: "queried (end_events res) = []"
  by (simp add: end_events_def split: sum.splits option.splits)

lemma extracting_end_events: "extracting (end_events res) = []"
  by (simp add: end_events_def split: sum.splits option.splits)

lemma queried_launched:
  "queried (concat (map (\<lambda>(i, c). [Queried i, Extracting i]) launched)) = map fst launched"
  by (induction launched) auto

lemma extracting_launched:
  "extracting (concat (map (\<lambda>(i, c). [Queried i, Extracting i]) launched)) = map fst launched"
  by (induction launched) auto

lemma main_closed:
  assumes "\<not> (html cfg \<and> plumbing cfg)"
    and "filesFeed (FS env) (Stdin env) cfg (cli_paths (args cfg)) = (fed, Closed)"
    and "query_loop
           (launch_query env (cli_paths (args cfg))
              (Update env (fst (BuildTree env (Parse env fed))) sentinel)
              (snd (BuildTree env (Parse env fed))))
           (fromThreshold cfg) (toThreshold cfg) [] = Some launched"
  shows "main env cfg = Some (run_events env cfg fed launched)"
  using assms
  by (cases "html cfg") (simp_all add: main_def Let_def case_prod_beta)

lemma queried_run_events: "queried (run_events env cfg fed launched) = map fst launched"
  by (simp add: run_events_def queried_append queried_Printed queried_end_events
      queried_launched)

lemma extracting_run_events: "extracting (run_events env cfg fed launched) = map fst launched"
  by (simp add: run_events_def extracting_append extracting_Printed extracting_end_events
      extracting_launched)

lemma sint_word_of_int_upto:
  "k \<in> set [sint (lo :: goint)..sint (hi :: goint)] \<Longrightarrow> sint (word_of_int k :: goint) = k"
  using sint_ge [of lo] sint_lt [of hi]
  by (simp add: sint_sbintrunc' signed_take_bit_int_eq_self)

lemma main_queries:
  assumes "\<not> (html cfg \<and> plumbing cfg)"
    and "filesFeed (FS env) (Stdin env) cfg (cli_paths (args cfg)) = (fed, Closed)"
    and "sint (toThreshold cfg) \<le> sint (fromThreshold cfg)" and "toThreshold cfg \<noteq> MinInt"
  shows "\<exists>evs. main env cfg = Some evs \<and> Parsed fed \<in> set evs \<and> TreeBuilt \<in> set evs \<and>
           map sint (queried evs) = rev [sint (toThreshold cfg)..sint (fromThreshold cfg)] \<and>
           extracting evs = queried evs"
proof -
  define launch where "launch = launch_query env (cli_paths (args cfg))
              (Update env (fst (BuildTree env (Parse env fed))) sentinel)
              (snd (BuildTree env (Parse env fed)))"
  define ks where "ks = rev [sint (toThreshold cfg)..sint (fromThreshold cfg)]"
  define launched where "launched = map (\<lambda>k. launch (word_of_int k)) ks"
  define evs where "evs = run_events env cfg fed launched"
  have q: "query_loop launch (fromThreshold cfg) (toThreshold cfg) [] = Some launched"
    using query_loop_descending [OF assms(3,4), of launch "[]"]
    by (simp add: launched_def ks_def)
  have m: "main env cfg = Some evs"
    unfolding evs_def using assms(1,2) q [unfolded launch_def] by (rule main_closed)
  have f: "map fst launched = map word_of_int ks"
    by (simp add: launched_def launch_def launch_query_def)
  have "map (\<lambda>k. sint (word_of_int k :: goint)) ks = ks"
  proof (rule map_idI)
    fix k assume "k \<in> set ks"
    then have "k \<in> set [sint (toThreshold cfg)..sint (fromThreshold cfg)]"
      by (simp add: ks_def)
    then show "sint (word_of_int k :: goint) = k" by (rule sint_word_of_int_upto)
  qed
  then have "map sint (map word_of_int ks :: goint list) = ks"
    by (simp add: comp_def)
  then have s: "map sint (queried evs) = ks"
    unfolding evs_def queried_run_events f .
  have e: "extracting evs = queried evs"
    unfolding evs_def queried_run_events extracting_run_events ..
  have p: "Parsed fed \<in> set evs" "TreeBuilt \<in> set evs"
    unfolding evs_def by (simp_all add: run_events_def)
  from m s e p show ?thesis unfolding ks_def by blast
qed

lemma main_both_outputs:
  "html cfg \<and> plumbing cfg \<Longrightarrow>
   main env cfg = Some [Fatal ''you can have either plumbing or HTML output'']"
  by (simp add: main_def)

lemma main_no_query:
  assumes "\<not> (html cfg \<and> plumbing cfg)"
    and "filesFeed (FS env) (Stdin env) cfg (cli_paths (args cfg)) = (fed, Closed)"
    and "sint (fromThreshold cfg) < sint (toThreshold cfg)"
  shows "main env cfg = Some (run_events env cfg fed [])"
  using assms(1,2) query_loop_stop [OF assms(3)] by (rule main_closed)

lemma run_events_no_query:
  "queried (run_events env cfg fed []) = [] \<and> Parsed fed \<in> set (run_events env cfg fed []) \<and>
   TreeBuilt \<in> set (run_events env cfg fed [])"
  by (simp add: queried_run_events) (simp add: run_events_def)

text \<open>
  C6: when \<open>to \<le> from\<close> and \<open>to\<close> is not the least \<^verbatim>\<open>int\<close>, the loop ends, having started
  one query and one extractor for every integer from \<open>from\<close> down to \<open>to\<close>, in this order.
\<close>

theorem thresholds_queried_descending:
  assumes "sint lo \<le> sint hi" and "lo \<noteq> MinInt"
  shows "query_loop launch hi lo [] =
           Some (map (\<lambda>k. launch (word_of_int k)) (rev [sint lo..sint hi])) \<and>
         (fromThreshold cfg = hi \<and> toThreshold cfg = lo \<and> \<not> (html cfg \<and> plumbing cfg) \<and>
          filesFeed (FS env) (Stdin env) cfg (cli_paths (args cfg)) = (fed, Closed) \<longrightarrow>
            (\<exists>evs. main env cfg = Some evs \<and>
                   map sint (queried evs) = rev [sint lo..sint hi] \<and>
                   extracting evs = queried evs))"
proof (intro conjI impI)
  show "query_loop launch hi lo [] =
      Some (map (\<lambda>k. launch (word_of_int k)) (rev [sint lo..sint hi]))"
    using query_loop_descending [OF assms, of launch "[]"] by simp
  assume a: "fromThreshold cfg = hi \<and> toThreshold cfg = lo \<and> \<not> (html cfg \<and> plumbing cfg) \<and>
          filesFeed (FS env) (Stdin env) cfg (cli_paths (args cfg)) = (fed, Closed)"
  then have "sint (toThreshold cfg) \<le> sint (fromThreshold cfg)" "toThreshold cfg \<noteq> MinInt"
    using assms by simp_all
  from main_queries [OF _ _ this, of env fed] a
  show "\<exists>evs. main env cfg = Some evs \<and> map sint (queried evs) = rev [sint lo..sint hi] \<and>
      extracting evs = queried evs"
    by blast
qed

lemma upto_13_15: "rev [13..15::int] = [15, 14, 13]"
  by (simp add: upto.simps)

theorem thresholds_queried_descending_witness:
  "query_loop (\<lambda>i. i) 15 13 [] = Some [15, 14, 13] \<and>
   (\<exists>evs. main env_missing (default_flags\<lparr>files := True, toThreshold := 13\<rparr>) = Some evs \<and>
      map sint (queried evs) = [15, 14, 13] \<and> extracting evs = queried evs)"
proof -
  have 1: "sint (13 :: goint) \<le> sint (15 :: goint)" by simp
  have 2: "(13 :: goint) \<noteq> MinInt" by (simp add: MinInt_def)
  have 3: "map (\<lambda>k. word_of_int k) (rev [sint (13 :: goint)..sint (15 :: goint)]) =
      [15, 14, 13 :: goint]"
    by (simp add: upto_13_15)
  have 4: "rev [sint (13 :: goint)..sint (15 :: goint)] = [15, 14, 13]"
    by (simp add: upto_13_15)
  have 5: "fromThreshold (default_flags\<lparr>files := True, toThreshold := 13\<rparr>) = 15 \<and>
      toThreshold (default_flags\<lparr>files := True, toThreshold := 13\<rparr>) = 13 \<and>
      \<not> (html (default_flags\<lparr>files := True, toThreshold := 13\<rparr>) \<and>
         plumbing (default_flags\<lparr>files := True, toThreshold := 13\<rparr>)) \<and>
      filesFeed (FS env_missing) (Stdin env_missing)
        (default_flags\<lparr>files := True, toThreshold := 13\<rparr>)
        (cli_paths (args (default_flags\<lparr>files := True, toThreshold := 13\<rparr>))) =
        ([''a.go''], Closed)"
    by (simp add: default_flags_def defaultThreshold_def filesFeed_def env_missing_def
        TrimPrefix_def)
  note t = thresholds_queried_descending [OF 1 2]
  from t [of "\<lambda>i. i", THEN conjunct1] 3
  have a: "query_loop (\<lambda>i. i) 15 13 [] = Some [15, 14, 13]" by simp
  from t [of _ "default_flags\<lparr>files := True, toThreshold := 13\<rparr>" env_missing "[''a.go'']",
      THEN conjunct2] 5
  have "\<exists>evs. main env_missing (default_flags\<lparr>files := True, toThreshold := 13\<rparr>) = Some evs \<and>
      map sint (queried evs) = rev [sint (13 :: goint)..sint (15 :: goint)] \<and>
      extracting evs = queried evs"
    by blast
  with a show ?thesis unfolding 4 by blast
qed

text \<open>
  C6 as worded fails at the least \<^verbatim>\<open>int\<close>: every \<open>i\<close> is at least \<open>to\<close>, \<open>i - 1\<close>
  wraps around, and the loop never ends.
\<close>

theorem thresholds_loop_counterexample:
  "sint MinInt = - 9223372036854775808 \<and> sint MinInt \<le> sint (0 :: goint) \<and>
   query_loop (\<lambda>i. i) 0 MinInt [] = None \<and>
   main env_missing (default_flags\<lparr>files := True, fromThreshold := 0, toThreshold := MinInt\<rparr>)
     = None"
proof -
  have f: "filesFeed (FS env_missing) (Stdin env_missing)
      (default_flags\<lparr>files := True, fromThreshold := 0, toThreshold := MinInt\<rparr>)
      (cli_paths (args (default_flags\<lparr>files := True, fromThreshold := 0,
         toThreshold := MinInt\<rparr>))) = ([''a.go''], Closed)"
    by (simp add: filesFeed_def env_missing_def default_flags_def TrimPrefix_def)
  have "main env_missing (default_flags\<lparr>files := True, fromThreshold := 0,
      toThreshold := MinInt\<rparr>) = None"
    unfolding main_def using f
    by (simp add: Let_def case_prod_beta query_loop_diverges default_flags_def)
  then show ?thesis by (simp add: query_loop_diverges sint_MinInt)
qed

text \<open>
  C2: the one configuration \<^verbatim>\<open>main\<close> rejects before the pipeline starts is HTML together
  with plumbing output. The thresholds are not checked: when the files have been fed, they
  are parsed and the tree is built whatever the thresholds are; with \<open>to > from\<close> no
  threshold is queried and \<^verbatim>\<open>printDupls\<close> runs on no channel; with \<open>to \<le> from\<close> every
  threshold of the interval is queried, positive or not.
\<close>

theorem thresholds_not_validated:
  "(html cfg \<and> plumbing cfg \<longrightarrow>
      main env cfg = Some [Fatal ''you can have either plumbing or HTML output'']) \<and>
   (\<not> (html cfg \<and> plumbing cfg) \<and>
    filesFeed (FS env) (Stdin env) cfg (cli_paths (args cfg)) = (fed, Closed) \<longrightarrow>
      (sint (fromThreshold cfg) < sint (toThreshold cfg) \<longrightarrow>
         main env cfg = Some (run_events env cfg fed []) \<and>
         queried (run_events env cfg fed []) = [] \<and>
         Parsed fed \<in> set (run_events env cfg fed []) \<and>
         TreeBuilt \<in> set (run_events env cfg fed [])) \<and>
      (sint (toThreshold cfg) \<le> sint (fromThreshold cfg) \<and> toThreshold cfg \<noteq> MinInt \<longrightarrow>
         (\<exists>evs. main env cfg = Some evs \<and> Parsed fed \<in> set evs \<and> TreeBuilt \<in> set evs \<and>
            map sint (queried evs) =
              rev [sint (toThreshold cfg)..sint (fromThreshold cfg)])))"
proof (intro conjI impI)
  assume "html cfg \<and> plumbing cfg"
  then show "main env cfg = Some [Fatal ''you can have either plumbing or HTML output'']"
    by (rule main_both_outputs)
next
  assume a: "\<not> (html cfg \<and> plumbing cfg) \<and>
    filesFeed (FS env) (Stdin env) cfg (cli_paths (args cfg)) = (fed, Closed)"
    and b: "sint (fromThreshold cfg) < sint (toThreshold cfg)"
  from a b show "main env cfg = Some (run_events env cfg fed [])"
    using main_no_query by blast
  show "queried (run_events env cfg fed []) = []" using run_events_no_query by blast
  show "Parsed fed \<in> set (run_events env cfg fed [])" using run_events_no_query by blast
  show "TreeBuilt \<in> set (run_events env cfg fed [])" using run_events_no_query by blast
next
  assume a: "\<not> (html cfg \<and> plumbing cfg) \<and>
    filesFeed (FS env) (Stdin env) cfg (cli_paths (args cfg)) = (fed, Closed)"
    and b: "sint (toThreshold cfg) \<le> sint (fromThreshold cfg) \<and> toThreshold cfg \<noteq> MinInt"
  from main_queries [of cfg env fed] a b
  show "\<exists>evs. main env cfg = Some evs \<and> Parsed fed \<in> set evs \<and> TreeBuilt \<in> set evs \<and>
      map sint (queried evs) = rev [sint (toThreshold cfg)..sint (fromThreshold cfg)]"
    by blast
qed

lemma feed_stdin_example:
  "files cfg \<Longrightarrow> filesFeed (FS env_missing) (Stdin env_missing) cfg ps = ([''a.go''], Closed)"
  by (simp add: filesFeed_def env_missing_def TrimPrefix_def)

lemma printDupls_no_match:
  "printDupls (\<lambda>ks. ks) (\<lambda>calls c. None) (replicate n []) =
     ([PrintHeader, PrintFooter], Inr None)"
  by (simp add: printDupls_def print_collected_def collect_groups_def group_keys_def)

lemma run_events_example:
  "\<not> verbose cfg \<Longrightarrow>
   run_events env_missing cfg fed (map (\<lambda>i. (i, [])) is) =
     [Parsed fed, TreeBuilt, Updated sentinel] @ concat (map (\<lambda>i. [Queried i, Extracting i]) is) @
     [Printed PrintHeader, Printed PrintFooter]"
proof -
  assume v: "\<not> verbose cfg"
  have m: "map snd (map (\<lambda>i. (i, [])) is) = replicate (length is) ([] :: Match list)"
    by (induction "is") simp_all
  have c: "concat (map (\<lambda>(i, c). [Queried i, Extracting i]) (map (\<lambda>i. (i, [] :: Match list)) is)) =
      concat (map (\<lambda>i. [Queried i, Extracting i]) is)"
    by (induction "is") simp_all
  have p: "printDupls (KeyOrder env_missing) (NewPrinter env_missing (newPrinter cfg))
      (replicate (length is) []) = ([PrintHeader, PrintFooter], Inr None)"
    using printDupls_no_match [of "length is"] by (simp add: env_missing_def)
  show ?thesis
    unfolding run_events_def m c p using v by (simp add: end_events_def)
qed

theorem thresholds_not_validated_witness:
  "main env_missing (default_flags\<lparr>html := True, plumbing := True\<rparr>) =
     Some [Fatal ''you can have either plumbing or HTML output''] \<and>
   main env_missing (default_flags\<lparr>files := True, toThreshold := 16\<rparr>) =
     Some (run_events env_missing (default_flags\<lparr>files := True, toThreshold := 16\<rparr>)
             [''a.go''] []) \<and>
   (\<exists>evs. main env_missing (default_flags\<lparr>files := True, fromThreshold := 0, toThreshold := - 1\<rparr>)
            = Some evs \<and>
          Parsed [''a.go''] \<in> set evs \<and> TreeBuilt \<in> set evs \<and> map sint (queried evs) = [0, - 1])"
proof -
  let ?A = "default_flags\<lparr>html := True, plumbing := True\<rparr>"
  let ?B = "default_flags\<lparr>files := True, toThreshold := 16\<rparr>"
  let ?C = "default_flags\<lparr>files := True, fromThreshold := 0, toThreshold := - 1\<rparr>"
  have a: "html ?A \<and> plumbing ?A" by simp
  have b: "\<not> (html ?B \<and> plumbing ?B) \<and>
      filesFeed (FS env_missing) (Stdin env_missing) ?B (cli_paths (args ?B)) =
        ([''a.go''], Closed)"
    by (simp add: feed_stdin_example) (simp add: default_flags_def)
  have b': "sint (fromThreshold ?B) < sint (toThreshold ?B)"
    by (simp add: default_flags_def defaultThreshold_def)
  have c: "\<not> (html ?C \<and> plumbing ?C) \<and>
      filesFeed (FS env_missing) (Stdin env_missing) ?C (cli_paths (args ?C)) =
        ([''a.go''], Closed)"
    by (simp add: feed_stdin_example) (simp add: default_flags_def)
  have c': "sint (toThreshold ?C) \<le> sint (fromThreshold ?C) \<and> toThreshold ?C \<noteq> MinInt"
    by (simp add: MinInt_def)
  have u: "rev [sint (toThreshold ?C)..sint (fromThreshold ?C)] = [0, - 1]"
    by (simp add: upto.simps)
  note t = thresholds_not_validated
  from t [of ?A env_missing] a
  have 1: "main env_missing ?A = Some [Fatal ''you can have either plumbing or HTML output'']"
    by blast
  from t [of ?B env_missing "[''a.go'']"] b b'
  have 2: "main env_missing ?B = Some (run_events env_missing ?B [''a.go''] [])"
    by blast
  from t [of ?C env_missing "[''a.go'']"] c c'
  have "\<exists>evs. main env_missing ?C = Some evs \<and> Parsed [''a.go''] \<in> set evs \<and>
      TreeBuilt \<in> set evs \<and>
      map sint (queried evs) = rev [sint (toThreshold ?C)..sint (fromThreshold ?C)]"
    by blast
  then have 3: "\<exists>evs. main env_missing ?C = Some evs \<and> Parsed [''a.go''] \<in> set evs \<and>
      TreeBuilt \<in> set evs \<and> map sint (queried evs) = [0, - 1]"
    unfolding u .
  from 1 2 3 show ?thesis by blast
qed

lemma main_example_to_above_from:
  "main env_missing (default_flags\<lparr>files := True, toThreshold := 16\<rparr>) =
     Some [Parsed [''a.go''], TreeBuilt, Updated sentinel,
           Printed PrintHeader, Printed PrintFooter]"
proof -
  let ?B = "default_flags\<lparr>files := True, toThreshold := 16\<rparr>"
  have nb: "\<not> (html ?B \<and> plumbing ?B)" by (simp add: default_flags_def)
  have fb: "filesFeed (FS env_missing) (Stdin env_missing) ?B (cli_paths (args ?B)) =
        ([''a.go''], Closed)"
    by (simp add: feed_stdin_example)
  have vb: "\<not> verbose ?B" by (simp add: default_flags_def)
  have qb: "query_loop launch (fromThreshold ?B) (toThreshold ?B) [] = Some []"
    for launch :: "goint \<Rightarrow> goint \<times> Match list"
    by (rule query_loop_stop) (simp add: default_flags_def defaultThreshold_def)
  have 1: "main env_missing ?B =
      Some (run_events env_missing ?B [''a.go''] (map (\<lambda>i. (i, [])) []))"
    using main_closed [OF nb fb] qb by simp
  show ?thesis unfolding 1 run_events_example [OF vb] by simp
qed

lemma main_example_nonpositive:
  "main env_missing (default_flags\<lparr>files := True, fromThreshold := 0, toThreshold := - 1\<rparr>) =
     Some [Parsed [''a.go''], TreeBuilt, Updated sentinel, Queried 0, Extracting 0,
           Queried (- 1), Extracting (- 1), Printed PrintHeader, Printed PrintFooter]"
proof -
  let ?C = "default_flags\<lparr>files := True, fromThreshold := 0, toThreshold := - 1\<rparr>"
  have nc: "\<not> (html ?C \<and> plumbing ?C)" by (simp add: default_flags_def)
  have fc: "filesFeed (FS env_missing) (Stdin env_missing) ?C (cli_paths (args ?C)) =
        ([''a.go''], Closed)"
    by (simp add: feed_stdin_example)
  have vc: "\<not> verbose ?C" by (simp add: default_flags_def)
  have l: "launch_query env_missing ps t data i = (i, [])" for ps t data i
    by (simp add: launch_query_def env_missing_def)
  have qc: "query_loop (launch_query env_missing ps t data) (fromThreshold ?C) (toThreshold ?C) [] =
      Some (map (\<lambda>i. (i, [])) [0, - 1])" for ps t data
    using query_loop_descending [of "- 1" 0 "launch_query env_missing ps t data" "[]"]
    by (simp add: MinInt_def upto.simps l)
  have 2: "main env_missing ?C =
      Some (run_events env_missing ?C [''a.go''] (map (\<lambda>i. (i, [])) [0, - 1]))"
    using nc fc qc by (rule main_closed)
  show ?thesis unfolding 2 run_events_example [OF vc] by simp
qed

text \<open>
  C2 as worded fails: with \<open>to = 16 > from = 15\<close> the program does not end fatally,
  the file is parsed and the tree built; with the thresholds \<open>0\<close> and \<open>- 1\<close> the tree is
  queried at both.
\<close>

theorem thresholds_not_validated_counterexample:
  "main env_missing (default_flags\<lparr>files := True, toThreshold := 16\<rparr>) =
     Some [Parsed [''a.go''], TreeBuilt, Updated sentinel,
           Printed PrintHeader, Printed PrintFooter] \<and>
   main env_missing (default_flags\<lparr>files := True, fromThreshold := 0, toThreshold := - 1\<rparr>) =
     Some [Parsed [''a.go''], TreeBuilt, Updated sentinel, Queried 0, Extracting 0,
           Queried (- 1), Extracting (- 1), Printed PrintHeader, Printed PrintFooter]"
  using main_example_to_above_from main_example_nonpositive by (rule conjI)

end
